theory Spec2Isabelle
  imports Main
begin


section \<open>Data model (part_000, lines 6-65)\<close>

text \<open>
  The plugin's \<open>Config\<close>, \<open>Submit\<close>, \<open>Task\<close> and \<open>QueueJob\<close> interfaces as records.
  Optional members (\<open>password?\<close>, \<open>encrypt?\<close>, ...) are \<open>option\<close> values, \<open>None\<close> standing
  for \<open>undefined\<close>. Times are millisecond counts as returned by \<open>Date.now()\<close>, modelled
  as \<open>int\<close>. Only the members of \<open>Task\<close> that the queue manager reads are kept.
\<close>

record Config =
  endpoint :: string
  queryInterval :: int
  encrypt :: bool
  password :: "string option"
  timeout :: int

datatype OutputFormat = Zip | Pdf

record Submit =
  album_id :: string
  submit_password :: "string option"
  submit_encrypt :: "bool option"
  output_format :: "OutputFormat option"
  quality :: "int option"

record Task =
  task_id :: string
  status :: string
  total_images :: int
  download_url :: string
  artifact_filename :: string
  error :: string
  task_password :: string

text \<open>\<open>type StatusMessageId = string | string[] | undefined\<close> (line 53).\<close>

datatype StatusMessageId = Undefined | MsgId string | MsgIds "string list"

text \<open>
  The texts the manager sends are template strings with fixed (non-ASCII) wording; each
  template is a constructor carrying the interpolated values. \<open>ErrText\<close> is the result of
  \<open>formatErr\<close> and of \<open>task.error || <unknown error>\<close>: the fixed "unknown error" wording
  or a concrete text.
\<close>

datatype ErrText = UnknownError | ErrMsg string

datatype StatusText =
    StStarting string                 \<comment> \<open>line 160: start notice with the album id\<close>
  | StCreateFailed ErrText            \<comment> \<open>line 178: submission failed\<close>
  | StCreated string "int option"     \<comment> \<open>line 185: task id, \<open>total_images || "?"\<close>\<close>
  | StCancelled                       \<comment> \<open>line 194\<close>
  | StTimedOut                        \<comment> \<open>line 198\<close>
  | StRetrying                        \<comment> \<open>line 207: query failed, retrying\<close>
  | StPackaging                       \<comment> \<open>line 224: packaging done, sending the file\<close>
  | StFailed ErrText                  \<comment> \<open>line 245: task failed\<close>

datatype Content =
    CStatus StatusText
  | CFile string "string option"      \<comment> \<open>lines 229-230: \<open>h.file(url, {filename})\<close> or \<open>h.file(url)\<close>\<close>
  | CDownloadAddr string              \<comment> \<open>line 233: the raw download reference as text\<close>
  | CDeliverFailed ErrText string     \<comment> \<open>line 236: delivery failure report\<close>
  | CCompleted string "string option" \<comment> \<open>line 240: album id, \<open>task.password\<close> or the "none" marker\<close>

text \<open>
  \<open>QueueJob\<close> (lines 55-65). \<open>session\<close> is represented by the channel id it carries (the only
  member read besides \<open>send\<close> and \<open>bot.deleteMessage\<close>), \<open>controller\<close> by the \<open>aborted\<close> flag
  of its signal.
\<close>

record QueueJob =
  job_id :: string
  channelCid :: string
  submit :: Submit
  session_channelId :: string
  enqueuedAt :: int
  aborted :: bool
  statusMsg :: StatusMessageId
  lastStatus :: "StatusText option"
  backendTask :: "Task option"

section \<open>Effects: calls issued and their answers\<close>

text \<open>
  Every call to an external collaborator is recorded as an \<open>Action\<close>; the value with which
  the awaited call settles is a \<open>Response\<close>. \<open>session.send\<close> of the host framework resolves
  to the list of ids of the messages it created.
\<close>

datatype Action =
    ASend Content                     \<comment> \<open>\<open>session.send\<close>\<close>
  | ADeleteMessage string string      \<comment> \<open>\<open>session.bot.deleteMessage(channelId, mid)\<close>\<close>
  | APost string Submit int           \<comment> \<open>\<open>ctx.http.post(url, body, {timeout})\<close>\<close>
  | AGet string int                   \<comment> \<open>\<open>ctx.http.get(url, {timeout})\<close>\<close>
  | ASleep int                        \<comment> \<open>\<open>sleep(ms)\<close>\<close>

text \<open>A thrown value, as \<open>formatErr\<close> (lines 275-284) distinguishes them.\<close>

datatype Thrown =
    ThrownFalsy
  | ThrownString string
  | ThrownObject string string        \<comment> \<open>\<open>e.message\<close> (empty when absent) and the JSON rendering of \<open>e\<close>\<close>

datatype Response =
    RIds "string list"                \<comment> \<open>a send resolved with message ids\<close>
  | RTask Task                        \<comment> \<open>an http call resolved with a task record\<close>
  | RVoid                             \<comment> \<open>\<open>deleteMessage\<close> or \<open>sleep\<close> resolved\<close>
  | RThrow Thrown                     \<comment> \<open>the awaited call rejected\<close>

fun formatErr :: "Thrown \<Rightarrow> ErrText" where
  "formatErr ThrownFalsy = UnknownError"
| "formatErr (ThrownString s) = (if s = [] then UnknownError else ErrMsg s)"
| "formatErr (ThrownObject m j) = (if m \<noteq> [] then ErrMsg m else ErrMsg j)"

section \<open>processJob as a resumable computation (lines 156-272)\<close>

text \<open>
  \<open>processJob\<close> is an async function: it runs until it awaits an external call, and is
  resumed with that call's answer. \<open>Pc\<close> names the call it is suspended at, together with the
  local variables that are live there (\<open>startAt\<close>, \<open>created.task_id\<close>, \<open>task\<close>). Awaits on the
  manager's own async helpers (\<open>updateStatus\<close>, \<open>recallStatus\<close>, \<open>safeSend\<close>) are folded into
  the external call they end in.
\<close>

datatype Cont =
    KReturn                           \<comment> \<open>\<open>return\<close> (line 179) or \<open>break\<close> (lines 195, 199, 246)\<close>
  | KPoll string                      \<comment> \<open>line 189: read \<open>startAt\<close>, enter the polling loop\<close>
  | KRetry int string                 \<comment> \<open>lines 208-209: sleep, then \<open>continue\<close>\<close>
  | KDeliver Task                     \<comment> \<open>lines 225-234: send the artifact\<close>

datatype AfterRecall =
    ThenPost StatusText Cont          \<comment> \<open>\<open>updateStatus\<close>, line 255\<close>
  | ThenCompleted Task                \<comment> \<open>line 240\<close>

datatype Pc =
    AwaitStart                        \<comment> \<open>line 160\<close>
  | AwaitPost                         \<comment> \<open>line 173\<close>
  | AwaitDelete "string list" AfterRecall  \<comment> \<open>lines 265, 268; the ids still to delete\<close>
  | AwaitStatus StatusText Cont       \<comment> \<open>line 255\<close>
  | AwaitGet int string               \<comment> \<open>line 203\<close>
  | AwaitSleep int string             \<comment> \<open>lines 208, 249\<close>
  | AwaitDeliver Task                 \<comment> \<open>lines 231, 233\<close>
  | AwaitDeliverFailed Task           \<comment> \<open>line 236\<close>
  | AwaitCompleted                    \<comment> \<open>line 240\<close>
  | Returned                          \<comment> \<open>\<open>processJob\<close> returned\<close>
  | Threw Thrown                      \<comment> \<open>an exception left \<open>processJob\<close>\<close>

type_synonym Proc = "QueueJob \<times> Pc \<times> Action list"

definition finalSubmit :: "Config \<Rightarrow> Submit \<Rightarrow> Submit" where
  "finalSubmit cfg sub =
     sub\<lparr> submit_encrypt := (if encrypt cfg then Some True else submit_encrypt sub),
          submit_password := (case submit_password sub of Some p \<Rightarrow> Some p | None \<Rightarrow> password cfg),
          output_format := (case output_format sub of Some f \<Rightarrow> Some f | None \<Rightarrow> Some Zip) \<rparr>"

definition completedNotice :: "QueueJob \<Rightarrow> Task \<Rightarrow> Content" where
  "completedNotice job task =
     CCompleted (album_id (submit job))
       (if task_password task = [] then None else Some (task_password task))"

definition afterRecall :: "QueueJob \<Rightarrow> AfterRecall \<Rightarrow> Proc" where
  "afterRecall job a =
     (case a of
        ThenPost text k \<Rightarrow> (job, AwaitStatus text k, [ASend (CStatus text)])
      | ThenCompleted task \<Rightarrow> (job, AwaitCompleted, [ASend (completedNotice job task)]))"

text \<open>\<open>recallStatus\<close> up to its first await (lines 259-272).\<close>

definition recallStatus :: "QueueJob \<Rightarrow> AfterRecall \<Rightarrow> Proc" where
  "recallStatus job a =
     (case statusMsg job of
        Undefined \<Rightarrow> afterRecall job a
      | MsgId m \<Rightarrow>
          if m = [] then afterRecall job a
          else (job, AwaitDelete [] a, [ADeleteMessage (session_channelId job) m])
      | MsgIds ms \<Rightarrow>
          (case ms of
             [] \<Rightarrow> afterRecall (job\<lparr>statusMsg := Undefined\<rparr>) a
           | m # rest \<Rightarrow> (job, AwaitDelete rest a, [ADeleteMessage (session_channelId job) m])))"

definition updateStatus :: "QueueJob \<Rightarrow> StatusText \<Rightarrow> Cont \<Rightarrow> Proc" where
  "updateStatus job text k = recallStatus job (ThenPost text k)"

text \<open>
  The top of the polling loop (lines 191-205); \<open>now\<close> is what \<open>Date.now()\<close> returns. On
  entering the loop, line 189 and line 197 read the clock in the same synchronous run and
  get the same value (\<open>KPoll\<close> in \<open>continue\<close> below).
\<close>

definition pollTop :: "Config \<Rightarrow> int \<Rightarrow> QueueJob \<Rightarrow> int \<Rightarrow> string \<Rightarrow> Proc" where
  "pollTop cfg now job startAt tid =
     (if aborted job then updateStatus job StCancelled KReturn
      else if now - startAt > timeout cfg then updateStatus job StTimedOut KReturn
      else (job, AwaitGet startAt tid, [AGet (endpoint cfg @ ''/tasks/'' @ tid) (timeout cfg)]))"

definition deliver :: "Config \<Rightarrow> QueueJob \<Rightarrow> Task \<Rightarrow> Proc" where
  "deliver cfg job task =
     (if download_url task \<noteq> [] then
        (job, AwaitDeliver task,
         [ASend (CFile (endpoint cfg @ download_url task)
                   (if artifact_filename task = [] then None else Some (artifact_filename task)))])
      else (job, AwaitDeliver task, [ASend (CDownloadAddr (download_url task))]))"

definition continue :: "Config \<Rightarrow> int \<Rightarrow> QueueJob \<Rightarrow> Cont \<Rightarrow> Proc" where
  "continue cfg now job k =
     (case k of
        KReturn \<Rightarrow> (job, Returned, [])
      | KPoll tid \<Rightarrow> pollTop cfg now job now tid
      | KRetry startAt tid \<Rightarrow> (job, AwaitSleep startAt tid, [ASleep (queryInterval cfg)])
      | KDeliver task \<Rightarrow> deliver cfg job task)"

text \<open>The synchronous prefix of \<open>processJob\<close>: the start notice is sent (line 160).\<close>

definition processJob_start :: "QueueJob \<Rightarrow> Proc" where
  "processJob_start job = (job, AwaitStart, [ASend (CStatus (StStarting (album_id (submit job))))])"

text \<open>
  One resumption of \<open>processJob\<close>: the pending call settles with \<open>r\<close> at time \<open>now\<close>, and the
  function runs to its next await. An answer that no such call can give leaves the
  computation where it is.
\<close>

definition processJob_step :: "Config \<Rightarrow> int \<Rightarrow> Response \<Rightarrow> QueueJob \<Rightarrow> Pc \<Rightarrow> Proc" where
  "processJob_step cfg now r job pc =
     (case pc of
        AwaitStart \<Rightarrow>
          (case r of
             RIds ids \<Rightarrow>
               (job\<lparr>statusMsg := MsgIds ids\<rparr>, AwaitPost,
                [APost (endpoint cfg @ ''/tasks'') (finalSubmit cfg (submit job)) (timeout cfg)])
           | RThrow e \<Rightarrow>
               (job\<lparr>statusMsg := Undefined\<rparr>, AwaitPost,
                [APost (endpoint cfg @ ''/tasks'') (finalSubmit cfg (submit job)) (timeout cfg)])
           | _ \<Rightarrow> (job, pc, []))
      | AwaitPost \<Rightarrow>
          (case r of
             RTask created \<Rightarrow>
               updateStatus (job\<lparr>backendTask := Some created\<rparr>)
                 (StCreated (task_id created)
                    (if total_images created = 0 then None else Some (total_images created)))
                 (KPoll (task_id created))
           | RThrow e \<Rightarrow> updateStatus job (StCreateFailed (formatErr e)) KReturn
           | _ \<Rightarrow> (job, pc, []))
      | AwaitDelete rest a \<Rightarrow>
          (case r of
             RVoid \<Rightarrow>
               (case rest of
                  [] \<Rightarrow> afterRecall (job\<lparr>statusMsg := Undefined\<rparr>) a
                | m # rest' \<Rightarrow> (job, AwaitDelete rest' a, [ADeleteMessage (session_channelId job) m]))
           | RThrow e \<Rightarrow> afterRecall (job\<lparr>statusMsg := Undefined\<rparr>) a
           | _ \<Rightarrow> (job, pc, []))
      | AwaitStatus text k \<Rightarrow>
          (case r of
             RIds ids \<Rightarrow> continue cfg now (job\<lparr>statusMsg := MsgIds ids, lastStatus := Some text\<rparr>) k
           | RThrow e \<Rightarrow> continue cfg now (job\<lparr>statusMsg := Undefined, lastStatus := Some text\<rparr>) k
           | _ \<Rightarrow> (job, pc, []))
      | AwaitGet startAt tid \<Rightarrow>
          (case r of
             RTask task \<Rightarrow>
               (let job' = job\<lparr>backendTask := Some task\<rparr> in
                if status task = ''done'' then updateStatus job' StPackaging (KDeliver task)
                else if status task = ''error'' \<or> error task \<noteq> [] then
                  updateStatus job'
                    (StFailed (if error task = [] then UnknownError else ErrMsg (error task))) KReturn
                else (job', AwaitSleep startAt tid, [ASleep (queryInterval cfg)]))
           | RThrow e \<Rightarrow> updateStatus job StRetrying (KRetry startAt tid)
           | _ \<Rightarrow> (job, pc, []))
      | AwaitSleep startAt tid \<Rightarrow>
          (case r of
             RVoid \<Rightarrow> pollTop cfg now job startAt tid
           | _ \<Rightarrow> (job, pc, []))
      | AwaitDeliver task \<Rightarrow>
          (case r of
             RIds ids \<Rightarrow> recallStatus job (ThenCompleted task)
           | RThrow e \<Rightarrow>
               (job, AwaitDeliverFailed task,
                [ASend (CDeliverFailed (formatErr e) (download_url task))])
           | _ \<Rightarrow> (job, pc, []))
      | AwaitDeliverFailed task \<Rightarrow>
          (case r of
             RIds ids \<Rightarrow> recallStatus job (ThenCompleted task)
           | RThrow e \<Rightarrow> (job, Threw e, [])
           | _ \<Rightarrow> (job, pc, []))
      | AwaitCompleted \<Rightarrow>
          (case r of
             RIds ids \<Rightarrow> (job, Returned, [])
           | RThrow e \<Rightarrow> (job, Returned, [])
           | _ \<Rightarrow> (job, pc, []))
      | Returned \<Rightarrow> (job, pc, [])
      | Threw e \<Rightarrow> (job, pc, []))"

text \<open>
  A run of \<open>processJob\<close> against a script of timed answers, collecting the calls issued.
\<close>

fun processJob_run :: "Config \<Rightarrow> (int \<times> Response) list \<Rightarrow> Proc \<Rightarrow> Proc" where
  "processJob_run cfg [] p = p"
| "processJob_run cfg ((now, r) # rs) (job, pc, out) =
     (case processJob_step cfg now r job pc of
        (job', pc', acts) \<Rightarrow> processJob_run cfg rs (job', pc', out @ acts))"

definition processJob :: "Config \<Rightarrow> QueueJob \<Rightarrow> (int \<times> Response) list \<Rightarrow> Proc" where
  "processJob cfg job rs = processJob_run cfg rs (processJob_start job)"

definition settled :: "Pc \<Rightarrow> bool" where
  "settled pc = (case pc of Returned \<Rightarrow> True | Threw e \<Rightarrow> True | _ \<Rightarrow> False)"

section \<open>The queue manager (lines 67-154)\<close>

text \<open>
  The manager's arrays and job objects are shared by reference: the run loop of \<open>maybeStart\<close>
  keeps the array \<open>q\<close> and the job it executes in local variables while \<open>cancel\<close>, \<open>clear\<close>
  and \<open>enqueue\<close> reach them through the map. So arrays and jobs live in a store, addressed
  by numbers: \<open>arrays\<close> gives the contents of each array (a list of job references), \<open>jobs\<close>
  the fields of each job object. \<open>queues\<close> is the \<open>Map\<close> from channel to array reference,
  \<open>running\<close> the \<open>Set\<close> of channels. \<open>loops\<close> holds the activations of \<open>maybeStart\<close> that are
  suspended in \<open>await this.processJob(job)\<close>, with their locals \<open>cid\<close>, \<open>q\<close>, \<open>job\<close> and the
  point \<open>processJob\<close> is suspended at.

  \<open>trace\<close> is a history of what has been observed (calls issued on behalf of a job, and
  the settling of \<open>processJob\<close>); no operation reads it.
\<close>

record Loop =
  lcid :: string
  lq :: nat
  ljob :: nat
  lpc :: Pc

datatype Obs =
    Issued nat Action                 \<comment> \<open>a call issued while executing the job\<close>
  | Settled nat Pc                    \<comment> \<open>\<open>processJob\<close> of the job returned or threw\<close>

record Sys =
  queues :: "string \<Rightarrow> nat option"
  arrays :: "nat \<Rightarrow> nat list"
  nextArray :: nat
  jobs :: "nat \<Rightarrow> QueueJob"
  nextJob :: nat
  running :: "string set"
  loops :: "Loop list"
  trace :: "Obs list"

definition blankJob :: QueueJob where
  "blankJob =
     \<lparr> job_id = [], channelCid = [],
       submit = \<lparr> album_id = [], submit_password = None, submit_encrypt = None,
                  output_format = None, quality = None \<rparr>,
       session_channelId = [], enqueuedAt = 0, aborted = False, statusMsg = Undefined,
       lastStatus = None, backendTask = None \<rparr>"

text \<open>A new manager (lines 68-69): no queue, no running channel. Unallocated cells are blank.\<close>

definition init :: Sys where
  "init =
     \<lparr> queues = (\<lambda>c. None), arrays = (\<lambda>a. []), nextArray = 0, jobs = (\<lambda>j. blankJob),
       nextJob = 0, running = {}, loops = [], trace = [] \<rparr>"

text \<open>
  Lines 140-153 from the test of the \<open>while\<close> to the next suspension: either the head job's
  \<open>processJob\<close> is started and suspends (the result names the job and where it waits), or
  the loop ends and the \<open>finally\<close> block runs.
\<close>

definition whileLoop :: "string \<Rightarrow> nat \<Rightarrow> Sys \<Rightarrow> Sys \<times> (nat \<times> Pc) option" where
  "whileLoop cid a s =
     (if arrays s a \<noteq> [] then
        (let j = hd (arrays s a) in
         case processJob_start (jobs s j) of
           (job', pc', acts) \<Rightarrow>
             (s\<lparr> jobs := (jobs s)(j := job'), trace := trace s @ map (Issued j) acts \<rparr>,
              Some (j, pc')))
      else
        (s\<lparr> running := running s - {cid},
            queues := (if arrays s a = [] then (queues s)(cid := None) else queues s) \<rparr>,
         None))"

definition maybeStart :: "string \<Rightarrow> Sys \<Rightarrow> Sys" where
  "maybeStart cid s =
     (if cid \<in> running s then s
      else case queues s cid of
        None \<Rightarrow> s
      | Some a \<Rightarrow>
          if arrays s a = [] then s
          else (case whileLoop cid a (s\<lparr>running := insert cid (running s)\<rparr>) of
                  (s', Some (j, pc)) \<Rightarrow>
                    s'\<lparr>loops := loops s' @ [\<lparr>lcid = cid, lq = a, ljob = j, lpc = pc\<rparr>]\<rparr>
                | (s', None) \<Rightarrow> s'))"

text \<open>
  \<open>enqueue\<close> (lines 79-85). The job object is created by the caller just before the call
  (lines 317-324); its allocation in the store is part of the operation here.
\<close>

definition enqueue :: "QueueJob \<Rightarrow> Sys \<Rightarrow> nat \<times> Sys" where
  "enqueue job s =
     (let j = nextJob s;
          s0 = s\<lparr> jobs := (jobs s)(j := job), nextJob := Suc j \<rparr>;
          cid = channelCid job;
          a = (case queues s0 cid of Some a \<Rightarrow> a | None \<Rightarrow> nextArray s0);
          s1 = (case queues s0 cid of
                  Some a \<Rightarrow> s0
                | None \<Rightarrow> s0\<lparr> arrays := (arrays s0)(nextArray s0 := []),
                              nextArray := Suc (nextArray s0) \<rparr>);
          s2 = s1\<lparr> arrays := (arrays s1)(a := arrays s1 a @ [j]),
                  queues := (queues s1)(cid := Some a) \<rparr>;
          s3 = maybeStart cid s2
      in (length (arrays s3 a), s3))"

datatype ItemState = StateRunning | StateWaiting

record Summary =
  sm_running :: bool
  sm_length :: nat
  sm_items :: "(string \<times> string \<times> ItemState) list"

text \<open>\<open>getSummary\<close> (lines 87-105); the resulting \<open>Record\<close> is a map from channel to entry.\<close>

definition getSummary :: "Sys \<Rightarrow> string \<Rightarrow> Summary option" where
  "getSummary s cid =
     (case queues s cid of
        None \<Rightarrow> None
      | Some a \<Rightarrow>
          Some \<lparr> sm_running = (cid \<in> running s),
                 sm_length = length (arrays s a),
                 sm_items =
                   map (\<lambda>(idx, j).
                          (job_id (jobs s j), album_id (submit (jobs s j)),
                           if idx = 0 \<and> cid \<in> running s then StateRunning else StateWaiting))
                       (enumerate 0 (arrays s a)) \<rparr>)"

fun findIndex :: "('a \<Rightarrow> bool) \<Rightarrow> 'a list \<Rightarrow> nat option" where
  "findIndex P [] = None"
| "findIndex P (x # xs) =
     (if P x then Some 0 else (case findIndex P xs of None \<Rightarrow> None | Some i \<Rightarrow> Some (Suc i)))"

definition abort :: "nat \<Rightarrow> (nat \<Rightarrow> QueueJob) \<Rightarrow> (nat \<Rightarrow> QueueJob)" where
  "abort j js = js(j := (js j)\<lparr>aborted := True\<rparr>)"

text \<open>\<open>cancel\<close> (lines 107-118); it has no await and runs in one piece.\<close>

definition cancel :: "string \<Rightarrow> string \<Rightarrow> Sys \<Rightarrow> bool \<times> Sys" where
  "cancel cid localJobId s =
     (case queues s cid of
        None \<Rightarrow> (False, s)
      | Some a \<Rightarrow>
          if arrays s a = [] then (False, s)
          else (case findIndex (\<lambda>j. job_id (jobs s j) = localJobId) (arrays s a) of
                  None \<Rightarrow> (False, s)
                | Some idx \<Rightarrow>
                    (let j = arrays s a ! idx;
                         q' = take idx (arrays s a) @ drop (Suc idx) (arrays s a);
                         s1 = s\<lparr> arrays := (arrays s)(a := q'), jobs := abort j (jobs s) \<rparr>
                     in (True, if q' = [] then s1\<lparr>queues := (queues s1)(cid := None)\<rparr> else s1))))"

text \<open>\<open>clear\<close> (lines 120-132).\<close>

definition clear :: "string \<Rightarrow> Sys \<Rightarrow> nat \<times> Sys" where
  "clear cid s =
     (case queues s cid of
        None \<Rightarrow> (0, s)
      | Some a \<Rightarrow>
          (length (arrays s a),
           s\<lparr> jobs := fold abort (arrays s a) (jobs s),
              queues := (queues s)(cid := None),
              running := running s - {cid} \<rparr>))"

text \<open>
  The resumption of the \<open>i\<close>-th suspended run loop: the call its job waits for settles with
  \<open>r\<close> at time \<open>now\<close>. When \<open>processJob\<close> settles, the loop logs a thrown value (line 145),
  shifts its array (line 147) and goes on with the \<open>while\<close>, all in the same step: the
  continuation of \<open>await this.processJob(job)\<close> is taken to follow the return at once.
\<close>

definition resume :: "Config \<Rightarrow> nat \<Rightarrow> int \<Rightarrow> Response \<Rightarrow> Sys \<Rightarrow> Sys" where
  "resume cfg i now r s =
     (if i < length (loops s) then
        (let l = loops s ! i; j = ljob l in
         case processJob_step cfg now r (jobs s j) (lpc l) of
           (job', pc', acts) \<Rightarrow>
             (let s1 = s\<lparr> jobs := (jobs s)(j := job'), trace := trace s @ map (Issued j) acts \<rparr> in
              if settled pc' then
                (let s2 = s1\<lparr> trace := trace s1 @ [Settled j pc'],
                               arrays := (arrays s1)(lq l := tl (arrays s1 (lq l))) \<rparr> in
                 case whileLoop (lcid l) (lq l) s2 of
                   (s3, Some (j', pc'')) \<Rightarrow>
                     s3\<lparr>loops := (loops s3)[i := l\<lparr>ljob := j', lpc := pc''\<rparr>]\<rparr>
                 | (s3, None) \<Rightarrow>
                     s3\<lparr>loops := take i (loops s3) @ drop (Suc i) (loops s3)\<rparr>)
              else s1\<lparr>loops := (loops s1)[i := l\<lparr>lpc := pc'\<rparr>]\<rparr>))
      else s)"

datatype Event =
    Enqueue QueueJob
  | Cancel string string
  | Clear string
  | Resume nat int Response

fun step :: "Config \<Rightarrow> Event \<Rightarrow> Sys \<Rightarrow> Sys" where
  "step cfg (Enqueue job) s = snd (enqueue job s)"
| "step cfg (Cancel cid localJobId) s = snd (cancel cid localJobId s)"
| "step cfg (Clear cid) s = snd (clear cid s)"
| "step cfg (Resume i now r) s = resume cfg i now r s"

fun run :: "Config \<Rightarrow> Event list \<Rightarrow> Sys \<Rightarrow> Sys" where
  "run cfg [] s = s"
| "run cfg (e # es) s = run cfg es (step cfg e s)"

section \<open>Notions used to state the properties\<close>

subsection \<open>Scripts of answers\<close>

text \<open>
  \<open>idsOf\<close> lists the message ids that \<open>recallStatus\<close> tries to delete for a given reference
  (none when the reference is falsy). \<open>answers r ts\<close> is the script in which the same answer
  \<open>r\<close> arrives at each of the times \<open>ts\<close>. \<open>failingRound\<close> is the script of one polling round
  in which the query rejects: the previous status message (ids \<open>ms\<close>) is deleted, the
  retrying notice is posted (it gets the ids \<open>ms\<close> again) and the interval sleep ends.
  \<open>emit\<close> prepends calls already issued to those of a result.
\<close>

definition idsOf :: "StatusMessageId \<Rightarrow> string list" where
  "idsOf sm = (case sm of Undefined \<Rightarrow> [] | MsgId m \<Rightarrow> (if m = [] then [] else [m]) | MsgIds ms \<Rightarrow> ms)"

definition answers :: "Response \<Rightarrow> int list \<Rightarrow> (int \<times> Response) list" where
  "answers r ts = map (\<lambda>t. (t, r)) ts"


definition emit :: "Action list \<Rightarrow> Proc \<Rightarrow> Proc" where
  "emit out p = (case p of (job, pc, acts) \<Rightarrow> (job, pc, out @ acts))"

subsection \<open>Causes of termination\<close>





subsection \<open>The status message reference\<close>













subsection \<open>Queues, and the order of enqueueing and settling\<close>

text \<open>
  \<open>queueOf\<close> is the content of a channel's queue, empty when the map has no entry.
  \<open>waitingCount\<close> counts the items \<open>getSummary\<close> reports as waiting. Job references are
  allocated in enqueue order, so \<open>enqueuedIn s c\<close> lists the jobs enqueued into channel \<open>c\<close>
  in that order; \<open>settledIn s c\<close> lists those whose \<open>processJob\<close> has settled, in settling
  order. \<open>enqueuesOnly\<close> holds of event lists without cancel and clear.
\<close>

definition queueOf :: "Sys \<Rightarrow> string \<Rightarrow> nat list" where
  "queueOf s cid = (case queues s cid of None \<Rightarrow> [] | Some a \<Rightarrow> arrays s a)"

definition waitingCount :: "Sys \<Rightarrow> string \<Rightarrow> nat" where
  "waitingCount s cid =
     (case getSummary s cid of
        None \<Rightarrow> 0
      | Some v \<Rightarrow> length (filter (\<lambda>(i, alb, st). st = StateWaiting) (sm_items v)))"

fun settledJobs :: "Obs list \<Rightarrow> nat list" where
  "settledJobs [] = []"
| "settledJobs (Issued j a # t) = settledJobs t"
| "settledJobs (Settled j pc # t) = j # settledJobs t"

definition enqueuedIn :: "Sys \<Rightarrow> string \<Rightarrow> nat list" where
  "enqueuedIn s c = filter (\<lambda>j. channelCid (jobs s j) = c) [0..<nextJob s]"

definition settledIn :: "Sys \<Rightarrow> string \<Rightarrow> nat list" where
  "settledIn s c = filter (\<lambda>j. channelCid (jobs s j) = c) (settledJobs (trace s))"

definition enqueuesOnly :: "Event list \<Rightarrow> bool" where
  "enqueuesOnly es =
     list_all (\<lambda>e. case e of Cancel cid jid \<Rightarrow> False | Clear cid \<Rightarrow> False | _ \<Rightarrow> True) es"

text \<open>
  \<open>queueInv\<close> holds in every reachable state: a mapped queue is non-empty, allocated, and
  its channel is in the running set; no array is mapped under two channels; and the array
  of a run loop is mapped, if at all, under the loop's own channel.
\<close>

definition queueInv :: "Sys \<Rightarrow> bool" where
  "queueInv s =
     ((\<forall>c a. queues s c = Some a \<longrightarrow> arrays s a \<noteq> [] \<and> a < nextArray s \<and> c \<in> running s) \<and>
      (\<forall>c c' a. queues s c = Some a \<and> queues s c' = Some a \<longrightarrow> c = c') \<and>
      (\<forall>l \<in> set (loops s). lq l < nextArray s \<and> (\<forall>c. queues s c = Some (lq l) \<longrightarrow> c = lcid l)))"

text \<open>
  \<open>fifoInv\<close> holds as long as nothing is cancelled or cleared: the jobs enqueued into a
  channel are those settled followed by those queued; every run loop works on the mapped
  array of its channel and executes its head; there is one loop per running channel.
\<close>

definition fifoInv :: "Sys \<Rightarrow> bool" where
  "fifoInv s =
     ((\<forall>c. enqueuedIn s c = settledIn s c @ queueOf s c) \<and>
      (\<forall>j \<in> set (settledJobs (trace s)). j < nextJob s) \<and>
      (\<forall>l \<in> set (loops s). queues s (lcid l) = Some (lq l) \<and> ljob l = hd (arrays s (lq l))) \<and>
      distinct (map lcid (loops s)) \<and>
      (\<forall>c \<in> running s. c \<in> lcid ` set (loops s)))"

subsection \<open>Concrete inputs\<close>

text \<open>
  The default configuration (lines 14-21), a job as the command handler creates it (lines
  308-324), a task record as the backend returns it, and event sequences for one channel:
  a job enqueued into an idle channel; one whose submission succeeds late; two jobs of
  which the first has entered the polling loop; the first job ending with a failed
  submission; the running job being cancelled; the channel being cleared. \<open>twoUpdates\<close> is
  a script for \<open>processJob\<close> with two status updates, the second with a rejected delete.
\<close>

definition exConfig :: Config where
  "exConfig =
     \<lparr> endpoint = ''http://127.0.0.1:7210'', queryInterval = 500, encrypt = True,
       password = None, timeout = 30000 \<rparr>"

definition newJob :: "string \<Rightarrow> string \<Rightarrow> string \<Rightarrow> int \<Rightarrow> QueueJob" where
  "newJob i cid album t =
     \<lparr> job_id = i, channelCid = cid,
       submit = \<lparr> album_id = album, submit_password = None, submit_encrypt = Some True,
                  output_format = Some Zip, quality = None \<rparr>,
       session_channelId = cid, enqueuedAt = t, aborted = False, statusMsg = Undefined,
       lastStatus = None, backendTask = None \<rparr>"

definition exTask :: "string \<Rightarrow> Task" where
  "exTask st =
     \<lparr> task_id = ''T1'', status = st, total_images = 3, download_url = ''/files/a.zip'',
       artifact_filename = ''a.zip'', error = [], task_password = ''abcd'' \<rparr>"

definition oneRunning :: Sys where
  "oneRunning = run exConfig [Enqueue (newJob ''J1'' ''c'' ''12345'' 0)] init"


definition twoEnqueued :: "Event list" where
  "twoEnqueued =
     [Enqueue (newJob ''J1'' ''c'' ''12345'' 0),
      Enqueue (newJob ''J2'' ''c'' ''67890'' 1),
      Resume 0 2 (RIds [''m1'']),
      Resume 0 3 (RTask (exTask ''pending'')),
      Resume 0 4 RVoid,
      Resume 0 5 (RIds [''m2''])]"

definition firstSettled :: "Event list" where
  "firstSettled =
     [Enqueue (newJob ''J1'' ''c'' ''12345'' 0),
      Enqueue (newJob ''J2'' ''c'' ''67890'' 1),
      Resume 0 2 (RIds [''m1'']),
      Resume 0 3 (RThrow (ThrownString ''unreachable'')),
      Resume 0 4 RVoid,
      Resume 0 5 (RIds [''m2''])]"

definition cancelRunning :: "Event list" where
  "cancelRunning =
     twoEnqueued @
     [Cancel ''c'' ''J1'',
      Resume 0 6 (RTask (exTask ''pending'')),
      Resume 0 506 RVoid,
      Resume 0 507 RVoid,
      Resume 0 508 (RIds [''m3''])]"

definition clearWhileRunning :: "Event list" where
  "clearWhileRunning =
     twoEnqueued @
     [Clear ''c'',
      Resume 0 6 (RTask (exTask ''pending'')),
      Resume 0 506 RVoid,
      Resume 0 507 RVoid,
      Resume 0 508 (RIds [''m3'']),
      Resume 0 509 (RIds [''m4''])]"


section \<open>Runs of processJob against a script of answers\<close>

text \<open>
  Unfolding sets for evaluating the model on concrete inputs, and the lemmas that take a
  run through the deletes of \<open>recallStatus\<close> in one go.
\<close>

lemmas evalProc = processJob_def processJob_start_def processJob_step_def updateStatus_def
  recallStatus_def afterRecall_def continue_def pollTop_def deliver_def completedNotice_def
  finalSubmit_def settled_def answers_def

lemmas evalSys = init_def enqueue_def maybeStart_def whileLoop_def resume_def cancel_def clear_def
  abort_def Let_def

lemmas evalEx = exConfig_def newJob_def exTask_def twoEnqueued_def cancelRunning_def
  clearWhileRunning_def

lemma processJob_run_append:
  "processJob_run cfg (rs @ rs') p = processJob_run cfg rs' (processJob_run cfg rs p)"
proof (induction rs arbitrary: p)
  case Nil
  show ?case by simp
next
  case (Cons x rs)
  obtain now r where x: "x = (now, r)" by (cases x)
  obtain job pc out where p: "p = (job, pc, out)" by (cases p)
  show ?case using Cons.IH by (simp add: x p split: prod.splits)
qed

lemma run_out_prefix:
  "processJob_run cfg rs (job, pc, out) =
     (case processJob_run cfg rs (job, pc, []) of (j', pc', acts) \<Rightarrow> (j', pc', out @ acts))"
proof (induction rs arbitrary: job pc out)
  case Nil
  show ?case by simp
next
  case (Cons x rs)
  obtain now r where x: "x = (now, r)" by (cases x)
  obtain j1 pc1 a1 where st: "processJob_step cfg now r job pc = (j1, pc1, a1)"
    by (cases "processJob_step cfg now r job pc")
  show ?case
    using Cons.IH [of j1 pc1 "out @ a1"] Cons.IH [of j1 pc1 a1]
    by (simp add: x st split: prod.splits)
qed

lemma emit_simp: "emit out (job, pc, acts) = (job, pc, out @ acts)"
  by (simp add: emit_def)

lemma run_Cons_emit:
  "processJob_run cfg ((now, r) # rs) (job, pc, out) =
     processJob_run cfg rs (emit out (processJob_step cfg now r job pc))"
  by (simp add: emit_def split: prod.splits)

lemma run_deletes:
  "length ts = Suc (length rest) \<Longrightarrow>
   processJob_run cfg (answers RVoid ts) (job, AwaitDelete rest a, out) =
     (case afterRecall (job\<lparr>statusMsg := Undefined\<rparr>) a of
        (j', pc', acts) \<Rightarrow>
          (j', pc', out @ map (ADeleteMessage (session_channelId job)) rest @ acts))"
proof (induction rest arbitrary: ts out)
  case Nil
  then obtain t where "ts = [t]" by (cases ts) auto
  then show ?case
    by (simp add: answers_def processJob_step_def split: prod.splits)
next
  case (Cons m rest)
  then obtain t ts' where ts: "ts = t # ts'" and len: "length ts' = Suc (length rest)"
    by (cases ts) auto
  show ?case
    using Cons.IH [OF len] by (simp add: ts answers_def processJob_step_def)
qed

lemma recallStatus_run:
  assumes "statusMsg job \<noteq> MsgId []" and "length ts = length (idsOf (statusMsg job))"
  shows "processJob_run cfg (answers RVoid ts) (recallStatus job a) =
     (case afterRecall (job\<lparr>statusMsg := Undefined\<rparr>) a of
        (j', pc', acts) \<Rightarrow>
          (j', pc', map (ADeleteMessage (session_channelId job)) (idsOf (statusMsg job)) @ acts))"
proof (cases "statusMsg job")
  case Undefined
  then have eq: "job\<lparr>statusMsg := Undefined\<rparr> = job" by (cases job) simp
  from Undefined assms show ?thesis
    by (simp add: recallStatus_def idsOf_def answers_def eq split: prod.splits)
next
  case (MsgId m)
  with assms have m: "m \<noteq> []" by simp
  with MsgId assms obtain t where ts: "ts = [t]" by (cases ts) (auto simp: idsOf_def)
  show ?thesis
    using run_deletes [of ts "[]" cfg job a "[ADeleteMessage (session_channelId job) m]"] MsgId m ts
    by (simp add: recallStatus_def idsOf_def split: prod.splits)
next
  case (MsgIds ms)
  show ?thesis
  proof (cases ms)
    case Nil
    with MsgIds assms show ?thesis
      by (simp add: recallStatus_def idsOf_def answers_def split: prod.splits)
  next
    case (Cons m rest)
    with MsgIds assms have len: "length ts = Suc (length rest)" by (simp add: idsOf_def)
    show ?thesis
      using run_deletes [OF len, of cfg job a "[ADeleteMessage (session_channelId job) m]"] MsgIds Cons
      by (simp add: recallStatus_def idsOf_def split: prod.splits)
  qed
qed

lemma recallStatus_then:
  assumes "statusMsg job \<noteq> MsgId []" and "length ts = length (idsOf (statusMsg job))"
  shows "processJob_run cfg (answers RVoid ts @ rest) (emit out (recallStatus job a)) =
     processJob_run cfg rest
       (emit (out @ map (ADeleteMessage (session_channelId job)) (idsOf (statusMsg job)))
          (afterRecall (job\<lparr>statusMsg := Undefined\<rparr>) a))"
proof -
  obtain j1 pc1 a1 where r: "recallStatus job a = (j1, pc1, a1)" by (cases "recallStatus job a")
  obtain j2 pc2 a2 where f: "afterRecall (job\<lparr>statusMsg := Undefined\<rparr>) a = (j2, pc2, a2)"
    by (cases "afterRecall (job\<lparr>statusMsg := Undefined\<rparr>) a")
  have "processJob_run cfg (answers RVoid ts) (j1, pc1, a1) =
      (j2, pc2, map (ADeleteMessage (session_channelId job)) (idsOf (statusMsg job)) @ a2)"
    using recallStatus_run [OF assms, of cfg a] by (simp add: r f)
  then have "processJob_run cfg (answers RVoid ts) (j1, pc1, out @ a1) =
      (j2, pc2, out @ map (ADeleteMessage (session_channelId job)) (idsOf (statusMsg job)) @ a2)"
    using run_out_prefix [of cfg "answers RVoid ts" j1 pc1 "out @ a1"]
          run_out_prefix [of cfg "answers RVoid ts" j1 pc1 a1]
    by (simp split: prod.splits)
  then show ?thesis
    by (simp add: processJob_run_append r f emit_def)
qed


lemmas runSteps = run_Cons_emit processJob_step_def updateStatus_def recallStatus_then idsOf_def
  afterRecall_def emit_simp continue_def deliver_def completedNotice_def pollTop_def
  processJob_def processJob_start_def

section \<open>The status message reference\<close>















section \<open>Query failures and the causes of termination\<close>










section \<open>The timeout budget\<close>




section \<open>Delivery of the artifact\<close>

text \<open>
  What \<open>processJob\<close> does when a status query reports \<open>done\<close>: the packaging notice replaces
  the previous status message and the artifact is sent, as a file whose URL is the
  configured endpoint followed by the download reference, with the reported filename when
  there is one, if the download reference is non-empty, and otherwise as a text carrying
  the raw reference. When that send rejects, a failure report is sent. When the delivery
  or else the failure report is sent successfully, the packaging notice is recalled, the
  completion notice with the reported password (or the "none" marker) is posted, and
  \<open>processJob\<close> returns.
\<close>

lemma delivery_on_completion:
  "status task = ''done'' \<and> statusMsg job = MsgIds ms \<and> length ts = length ms \<and>
     length ts2 = length m2 \<and> (d = RIds x \<or> d = RThrow e) \<longrightarrow>
   processJob_run cfg
       ((t0, RTask task) # answers RVoid ts @ [(t1, RIds m2), (t2, d)] @
        (case d of RThrow e' \<Rightarrow> [(t3, RIds y)] | _ \<Rightarrow> []) @
        answers RVoid ts2 @ [(t4, RIds z)])
       (job, AwaitGet startAt tid, []) =
     (job\<lparr>backendTask := Some task, statusMsg := Undefined, lastStatus := Some StPackaging\<rparr>,
      Returned,
      map (ADeleteMessage (session_channelId job)) ms @
      [ASend (CStatus StPackaging),
       ASend (if download_url task \<noteq> []
              then CFile (endpoint cfg @ download_url task)
                     (if artifact_filename task = [] then None else Some (artifact_filename task))
              else CDownloadAddr (download_url task))] @
      (case d of RThrow e' \<Rightarrow> [ASend (CDeliverFailed (formatErr e') (download_url task))] | _ \<Rightarrow> []) @
      map (ADeleteMessage (session_channelId job)) m2 @
      [ASend (CCompleted (album_id (submit job))
                (if task_password task = [] then None else Some (task_password task)))])"
proof (intro impI, elim conjE disjE)
  assume "status task = ''done''" "statusMsg job = MsgIds ms" "length ts = length ms"
    "length ts2 = length m2" "d = RIds x"
  then show "processJob_run cfg
       ((t0, RTask task) # answers RVoid ts @ [(t1, RIds m2), (t2, d)] @
        (case d of RThrow e' \<Rightarrow> [(t3, RIds y)] | _ \<Rightarrow> []) @
        answers RVoid ts2 @ [(t4, RIds z)])
       (job, AwaitGet startAt tid, []) =
     (job\<lparr>backendTask := Some task, statusMsg := Undefined, lastStatus := Some StPackaging\<rparr>,
      Returned,
      map (ADeleteMessage (session_channelId job)) ms @
      [ASend (CStatus StPackaging),
       ASend (if download_url task \<noteq> []
              then CFile (endpoint cfg @ download_url task)
                     (if artifact_filename task = [] then None else Some (artifact_filename task))
              else CDownloadAddr (download_url task))] @
      (case d of RThrow e' \<Rightarrow> [ASend (CDeliverFailed (formatErr e') (download_url task))] | _ \<Rightarrow> []) @
      map (ADeleteMessage (session_channelId job)) m2 @
      [ASend (CCompleted (album_id (submit job))
                (if task_password task = [] then None else Some (task_password task)))])"
    by (simp add: runSteps del: processJob_run.simps(2))
next
  assume "status task = ''done''" "statusMsg job = MsgIds ms" "length ts = length ms"
    "length ts2 = length m2" "d = RThrow e"
  then show "processJob_run cfg
       ((t0, RTask task) # answers RVoid ts @ [(t1, RIds m2), (t2, d)] @
        (case d of RThrow e' \<Rightarrow> [(t3, RIds y)] | _ \<Rightarrow> []) @
        answers RVoid ts2 @ [(t4, RIds z)])
       (job, AwaitGet startAt tid, []) =
     (job\<lparr>backendTask := Some task, statusMsg := Undefined, lastStatus := Some StPackaging\<rparr>,
      Returned,
      map (ADeleteMessage (session_channelId job)) ms @
      [ASend (CStatus StPackaging),
       ASend (if download_url task \<noteq> []
              then CFile (endpoint cfg @ download_url task)
                     (if artifact_filename task = [] then None else Some (artifact_filename task))
              else CDownloadAddr (download_url task))] @
      (case d of RThrow e' \<Rightarrow> [ASend (CDeliverFailed (formatErr e') (download_url task))] | _ \<Rightarrow> []) @
      map (ADeleteMessage (session_channelId job)) m2 @
      [ASend (CCompleted (album_id (submit job))
                (if task_password task = [] then None else Some (task_password task)))])"
    by (simp add: runSteps del: processJob_run.simps(2))
qed

lemma delivery_on_completion_example:
  "status (exTask ''done'') = ''done'' \<and>
   processJob_run exConfig
       [(10, RTask (exTask ''done'')), (11, RVoid), (12, RIds [''m2'']),
        (13, RThrow (ThrownString ''upload failed'')), (14, RIds [''m3'']), (15, RVoid),
        (16, RIds [''m4''])]
       ((newJob ''J1'' ''c'' ''12345'' 0)\<lparr>statusMsg := MsgIds [''m1'']\<rparr>, AwaitGet 5 ''T1'', []) =
     ((newJob ''J1'' ''c'' ''12345'' 0)
        \<lparr>backendTask := Some (exTask ''done''), statusMsg := Undefined,
         lastStatus := Some StPackaging\<rparr>,
      Returned,
      [ADeleteMessage ''c'' ''m1'', ASend (CStatus StPackaging),
       ASend (CFile ''http://127.0.0.1:7210/files/a.zip'' (Some ''a.zip'')),
       ASend (CDeliverFailed (ErrMsg ''upload failed'') ''/files/a.zip''),
       ADeleteMessage ''c'' ''m2'', ASend (CCompleted ''12345'' (Some ''abcd''))])"
  using delivery_on_completion [of "exTask ''done''"
      "(newJob ''J1'' ''c'' ''12345'' 0)\<lparr>statusMsg := MsgIds [''m1'']\<rparr>" "[''m1'']" "[11]" "[15]"
      "[''m2'']" "RThrow (ThrownString ''upload failed'')" "[]" "ThrownString ''upload failed''"
      exConfig 10 12 13 14 "[''m3'']" 16 "[''m4'']" 5 "''T1''"]
  by (simp add: answers_def exTask_def newJob_def exConfig_def)

text \<open>
  C8 (the code departs from the specification). The backend reports completion, the
  delivery send rejects and the send of the failure report rejects too. That report (line
  236) is the one send of \<open>processJob\<close> that is neither inside a \<open>try\<close> nor made through
  \<open>safeSend\<close>, so the exception leaves \<open>processJob\<close>: the packaging notice is not recalled (the
  reference still holds its ids) and no completion notice is posted.
\<close>

theorem delivery_report_failure_escapes:
  "processJob_run exConfig
       [(10, RTask (exTask ''done'')), (11, RVoid), (12, RIds [''m2'']),
        (13, RThrow (ThrownString ''upload failed'')),
        (14, RThrow (ThrownString ''send failed''))]
       ((newJob ''J1'' ''c'' ''12345'' 0)\<lparr>statusMsg := MsgIds [''m1'']\<rparr>, AwaitGet 5 ''T1'', []) =
     ((newJob ''J1'' ''c'' ''12345'' 0)
        \<lparr>backendTask := Some (exTask ''done''), statusMsg := MsgIds [''m2''],
         lastStatus := Some StPackaging\<rparr>,
      Threw (ThrownString ''send failed''),
      [ADeleteMessage ''c'' ''m1'', ASend (CStatus StPackaging),
       ASend (CFile ''http://127.0.0.1:7210/files/a.zip'' (Some ''a.zip'')),
       ASend (CDeliverFailed (ErrMsg ''upload failed'') ''/files/a.zip'')])"
  by (simp add: evalProc exTask_def newJob_def exConfig_def)

section \<open>The queue map holds no empty queue\<close>

lemma findIndex_None: "(findIndex P xs = None) = (\<forall>x \<in> set xs. \<not> P x)"
  by (induction xs) (auto split: option.splits)

lemma findIndex_Some:
  "findIndex P xs = Some i \<Longrightarrow> i < length xs \<and> P (xs ! i) \<and> (\<forall>k < i. \<not> P (xs ! k))"
proof (induction xs arbitrary: i)
  case Nil
  then show ?case by simp
next
  case (Cons x xs)
  show ?case
  proof (cases "P x")
    case True
    with Cons.prems show ?thesis by simp
  next
    case False
    with Cons.prems obtain i' where i': "findIndex P xs = Some i'" "i = Suc i'"
      by (auto split: option.splits)
    from Cons.IH [OF i'(1)] False i'(2) show ?thesis
      by (auto simp: less_Suc_eq_0_disj)
  qed
qed

lemma whileLoop_start:
  "arrays s a \<noteq> [] \<Longrightarrow>
   whileLoop cid a s =
     (s\<lparr> trace := trace s @ [Issued (hd (arrays s a))
                    (ASend (CStatus (StStarting (album_id (submit (jobs s (hd (arrays s a))))))))] \<rparr>,
      Some (hd (arrays s a), AwaitStart))"
  by (simp add: whileLoop_def processJob_start_def Let_def)

lemma whileLoop_exit:
  "arrays s a = [] \<Longrightarrow>
   whileLoop cid a s = (s\<lparr> running := running s - {cid}, queues := (queues s)(cid := None) \<rparr>, None)"
  by (simp add: whileLoop_def)

lemma queueInv_init: "queueInv init"
  by (simp add: queueInv_def init_def)

lemma queueInv_cancel: "queueInv s \<Longrightarrow> queueInv (snd (cancel cid jid s))"
  unfolding queueInv_def cancel_def Let_def
  by (auto split: option.splits if_splits)

lemma queueInv_clear: "queueInv s \<Longrightarrow> queueInv (snd (clear cid s))"
  unfolding queueInv_def clear_def
  by (auto split: option.splits if_splits)

lemma queueInv_enqueue: 
  assumes "queueInv s" shows "queueInv (snd (enqueue job s))"
proof (cases "queues s (channelCid job)")
  case None
  with assms show ?thesis
    unfolding queueInv_def enqueue_def maybeStart_def Let_def
    by (auto simp: whileLoop_start less_Suc_eq split: option.splits if_splits)
next
  case (Some a)
  with assms show ?thesis
    unfolding queueInv_def enqueue_def maybeStart_def Let_def
    by (auto simp: whileLoop_start split: option.splits if_splits)
qed

lemma queueInv_resume:
  assumes inv: "queueInv s" shows "queueInv (resume cfg i now r s)"
proof (cases "i < length (loops s)")
  case False
  with inv show ?thesis by (simp add: resume_def)
next
  case True
  define l where "l = loops s ! i"
  obtain job' pc' acts where st: "processJob_step cfg now r (jobs s (ljob l)) (lpc l) = (job', pc', acts)"
    by (cases "processJob_step cfg now r (jobs s (ljob l)) (lpc l)")
  from True have lmem: "l \<in> set (loops s)" by (simp add: l_def)
  with inv have lq: "lq l < nextArray s" and own: "\<And>c. queues s c = Some (lq l) \<Longrightarrow> c = lcid l"
    by (auto simp: queueInv_def)
  define removed where "removed = take i (loops s) @ drop (Suc i) (loops s)"
  have removed: "x \<in> set removed \<Longrightarrow> x \<in> set (loops s)" for x
    by (auto simp: removed_def dest: in_set_takeD in_set_dropD)
  have updated: "y \<in> set ((loops s)[i := x]) \<Longrightarrow> y = x \<or> y \<in> set (loops s)" for x y
    using set_update_subset_insert [of "loops s" i x] by auto
  show ?thesis
  proof (cases "settled pc'")
    case False
    define ls where "ls = (loops s)[i := l\<lparr>lpc := pc'\<rparr>]"
    have ls: "y \<in> set ls \<Longrightarrow> y = l\<lparr>lpc := pc'\<rparr> \<or> y \<in> set (loops s)" for y
      unfolding ls_def by (rule updated)
    from False True st have "resume cfg i now r s =
        s\<lparr> jobs := (jobs s)(ljob l := job'), trace := trace s @ map (Issued (ljob l)) acts,
           loops := ls \<rparr>"
      by (simp add: resume_def l_def [symmetric] Let_def ls_def)
    with inv lmem show ?thesis
      unfolding queueInv_def by (auto dest!: ls)
  next
    case sett: True
    show ?thesis
    proof (cases "tl (arrays s (lq l)) = []")
      case True
      with \<open>i < length (loops s)\<close> st sett have "resume cfg i now r s =
        s\<lparr> jobs := (jobs s)(ljob l := job'),
           trace := trace s @ map (Issued (ljob l)) acts @ [Settled (ljob l) pc'],
           arrays := (arrays s)(lq l := []),
           running := running s - {lcid l},
           queues := (queues s)(lcid l := None),
           loops := removed \<rparr>"
        by (simp add: resume_def l_def [symmetric] Let_def whileLoop_exit removed_def)
      with inv own show ?thesis
        unfolding queueInv_def by (auto dest!: removed)
    next
      case False
      define ls where "ls = (loops s)[i := l\<lparr>ljob := hd (tl (arrays s (lq l))), lpc := AwaitStart\<rparr>]"
      have ls: "y \<in> set ls \<Longrightarrow>
          y = l\<lparr>ljob := hd (tl (arrays s (lq l))), lpc := AwaitStart\<rparr> \<or> y \<in> set (loops s)" for y
        unfolding ls_def by (rule updated)
      from False \<open>i < length (loops s)\<close> st sett have "resume cfg i now r s =
        s\<lparr> jobs := (jobs s)(ljob l := job'),
           trace := (trace s @ map (Issued (ljob l)) acts @ [Settled (ljob l) pc']) @
              [Issued (hd (tl (arrays s (lq l))))
                 (ASend (CStatus (StStarting (album_id (submit
                    (((jobs s)(ljob l := job')) (hd (tl (arrays s (lq l))))))))))],
           arrays := (arrays s)(lq l := tl (arrays s (lq l))),
           loops := ls \<rparr>"
        by (simp add: resume_def l_def [symmetric] Let_def whileLoop_start ls_def)
      with inv lmem False show ?thesis
        unfolding queueInv_def by (auto dest!: ls)
    qed
  qed
qed

lemma queueInv_step: "queueInv s \<Longrightarrow> queueInv (step cfg e s)"
  by (cases e) (simp_all add: queueInv_enqueue queueInv_cancel queueInv_clear queueInv_resume)

lemma queueInv_run: "queueInv s \<Longrightarrow> queueInv (run cfg es s)"
  by (induction es arbitrary: s) (simp_all add: queueInv_step)

text \<open>
  C10. In every state the manager can reach, by any sequence of enqueues, cancels, clears
  and resumptions of its run loops, a channel that has an entry in the queue map has a
  non-empty queue; so \<open>getSummary\<close> never reports a channel with length 0.
\<close>

theorem no_empty_queue_in_map:
  "(queues (run cfg es init) c = Some a \<longrightarrow> arrays (run cfg es init) a \<noteq> []) \<and>
   (getSummary (run cfg es init) c = Some v \<longrightarrow> sm_length v \<noteq> 0)"
proof -
  have "queueInv (run cfg es init)" by (rule queueInv_run) (rule queueInv_init)
  then show ?thesis
    by (auto simp: queueInv_def getSummary_def split: option.splits)
qed

theorem no_empty_queue_in_map_witness:
  "queues (run exConfig [Enqueue (newJob ''J1'' ''c'' ''12345'' 0),
                         Enqueue (newJob ''J2'' ''c'' ''67890'' 1),
                         Cancel ''c'' ''J2''] init) ''c'' = Some 0 \<and>
   arrays (run exConfig [Enqueue (newJob ''J1'' ''c'' ''12345'' 0),
                         Enqueue (newJob ''J2'' ''c'' ''67890'' 1),
                         Cancel ''c'' ''J2''] init) 0 \<noteq> []"
  using no_empty_queue_in_map [of exConfig
      "[Enqueue (newJob ''J1'' ''c'' ''12345'' 0), Enqueue (newJob ''J2'' ''c'' ''67890'' 1),
        Cancel ''c'' ''J2'']" "''c''" 0]
  by (simp add: evalSys evalProc newJob_def)

section \<open>cancel and enqueue\<close>

text \<open>
  C6. \<open>cancel\<close> returns false and leaves the manager unchanged when the channel has no
  queue or no job of the queue has the given id. When a job of the channel's queue has the
  id, \<open>cancel\<close> returns true, the first such job is removed from the queue at once (the
  other entries keep their order), and its cancellation token is signalled.
\<close>

theorem cancel_result:
  "((\<forall>j \<in> set (queueOf s cid). job_id (jobs s j) \<noteq> jid) \<longrightarrow> cancel cid jid s = (False, s)) \<and>
   (j \<in> set (queueOf s cid) \<and> job_id (jobs s j) = jid \<longrightarrow>
      (case findIndex (\<lambda>j. job_id (jobs s j) = jid) (queueOf s cid) of
         None \<Rightarrow> False
       | Some idx \<Rightarrow>
           idx < length (queueOf s cid) \<and>
           job_id (jobs s (queueOf s cid ! idx)) = jid \<and>
           fst (cancel cid jid s) \<and>
           queueOf (snd (cancel cid jid s)) cid =
             take idx (queueOf s cid) @ drop (Suc idx) (queueOf s cid) \<and>
           aborted (jobs (snd (cancel cid jid s)) (queueOf s cid ! idx))))"
proof (intro conjI impI)
  assume "\<forall>j \<in> set (queueOf s cid). job_id (jobs s j) \<noteq> jid"
  then have "queues s cid = Some a \<Longrightarrow> findIndex (\<lambda>j. job_id (jobs s j) = jid) (arrays s a) = None" for a
    by (simp add: findIndex_None queueOf_def)
  then show "cancel cid jid s = (False, s)"
    by (simp add: cancel_def split: option.splits)
next
  assume h: "j \<in> set (queueOf s cid) \<and> job_id (jobs s j) = jid"
  then obtain a where a: "queues s cid = Some a" and q: "queueOf s cid = arrays s a"
    by (cases "queues s cid") (auto simp: queueOf_def)
  from h have "findIndex (\<lambda>j. job_id (jobs s j) = jid) (queueOf s cid) \<noteq> None"
    by (auto simp: findIndex_None)
  then obtain idx where idx: "findIndex (\<lambda>j. job_id (jobs s j) = jid) (queueOf s cid) = Some idx"
    by auto
  from findIndex_Some [OF idx]
  have props: "idx < length (queueOf s cid)" "job_id (jobs s (queueOf s cid ! idx)) = jid"
    by simp_all
  from h q have ne: "arrays s a \<noteq> []" by auto
  from a q idx ne props
  show "case findIndex (\<lambda>j. job_id (jobs s j) = jid) (queueOf s cid) of
         None \<Rightarrow> False
       | Some idx \<Rightarrow>
           idx < length (queueOf s cid) \<and>
           job_id (jobs s (queueOf s cid ! idx)) = jid \<and>
           fst (cancel cid jid s) \<and>
           queueOf (snd (cancel cid jid s)) cid =
             take idx (queueOf s cid) @ drop (Suc idx) (queueOf s cid) \<and>
           aborted (jobs (snd (cancel cid jid s)) (queueOf s cid ! idx))"
    by (simp add: cancel_def Let_def queueOf_def abort_def)
qed

theorem cancel_result_witness:
  "job_id (jobs oneRunning 0) = ''J1'' \<and> 0 \<in> set (queueOf oneRunning ''c'') \<and>
   fst (cancel ''c'' ''J1'' oneRunning) \<and>
   queueOf (snd (cancel ''c'' ''J1'' oneRunning)) ''c'' = [] \<and>
   aborted (jobs (snd (cancel ''c'' ''J1'' oneRunning)) 0) \<and>
   queueOf oneRunning ''c'' = [0] \<and> job_id (jobs oneRunning 0) \<noteq> ''J9'' \<and>
   cancel ''c'' ''J9'' oneRunning = (False, oneRunning)"
  using cancel_result [of oneRunning "''c''" "''J1''" 0] cancel_result [of oneRunning "''c''" "''J9''" 0]
  by (simp add: oneRunning_def queueOf_def evalSys evalProc newJob_def)

lemma waiting_tail:
  "0 < n \<Longrightarrow>
   length (filter (\<lambda>(i, alb, st). st = StateWaiting)
     (map (\<lambda>(idx, j). (f j, g j, if idx = 0 \<and> b then StateRunning else StateWaiting))
        (enumerate n xs))) = length xs"
  by (induction xs arbitrary: n) simp_all

lemma waitingCount_running:
  assumes "queues s c = Some a" and "arrays s a \<noteq> []" and "c \<in> running s"
  shows "waitingCount s c = length (arrays s a) - 1"
proof -
  from assms(2) obtain x xs where q: "arrays s a = x # xs" by (cases "arrays s a") auto
  show ?thesis
    using assms(1,3) waiting_tail [of 1 "\<lambda>j. job_id (jobs s j)" "\<lambda>j. album_id (submit (jobs s j))" True xs]
    by (simp add: waitingCount_def getSummary_def q)
qed

text \<open>
  C5 (as amended). \<open>enqueue\<close> appends the job to the tail of its channel's queue, creating the
  queue when the channel has none, and returns the length of the queue after the append:
  one more than the number of jobs the queue held, the running job included while it is
  still queued. In a reachable state an idle channel (one not in the running set) has no
  queue, so enqueuing into it returns 1; and a channel that has a queue is running, its
  head being reported as running and the others as waiting, so enqueuing into a channel
  with \<open>k\<close> waiting jobs returns \<open>k + 2\<close>.
\<close>

theorem enqueue_position:
  "fst (enqueue job s) = length (queueOf s (channelCid job)) + 1 \<and>
   queueOf (snd (enqueue job s)) (channelCid job) = queueOf s (channelCid job) @ [nextJob s] \<and>
   jobs (snd (enqueue job s)) (nextJob s) = job \<and>
   (queues s (channelCid job) = None \<longrightarrow>
      queues (snd (enqueue job s)) (channelCid job) = Some (nextArray s)) \<and>
   (s = run cfg es init \<and> channelCid job \<notin> running s \<longrightarrow> fst (enqueue job s) = 1) \<and>
   (s = run cfg es init \<and> queues s (channelCid job) \<noteq> None \<longrightarrow>
      fst (enqueue job s) = waitingCount s (channelCid job) + 2)"
proof -
  have inv: "queueInv s" if "s = run cfg es init"
    using that by (simp add: queueInv_run queueInv_init)
  have idle: "queues s (channelCid job) = None"
    if "s = run cfg es init \<and> channelCid job \<notin> running s"
    using that inv by (cases "queues s (channelCid job)") (auto simp: queueInv_def)
  have main: "fst (enqueue job s) = length (queueOf s (channelCid job)) + 1 \<and>
   queueOf (snd (enqueue job s)) (channelCid job) = queueOf s (channelCid job) @ [nextJob s] \<and>
   jobs (snd (enqueue job s)) (nextJob s) = job \<and>
   (queues s (channelCid job) = None \<longrightarrow>
      queues (snd (enqueue job s)) (channelCid job) = Some (nextArray s))"
    by (cases "queues s (channelCid job)")
       (simp_all add: enqueue_def maybeStart_def Let_def whileLoop_start queueOf_def)
  have busy: "fst (enqueue job s) = waitingCount s (channelCid job) + 2"
    if h: "s = run cfg es init \<and> queues s (channelCid job) \<noteq> None"
  proof -
    from h obtain a where a: "queues s (channelCid job) = Some a" by auto
    from inv h a have ne: "arrays s a \<noteq> []" and r: "channelCid job \<in> running s"
      by (auto simp: queueInv_def)
    from waitingCount_running [OF a ne r] ne main a show ?thesis
      by (cases "arrays s a") (simp_all add: queueOf_def)
  qed
  from idle main busy show ?thesis by (auto simp: queueOf_def)
qed

theorem enqueue_position_witness:
  "oneRunning = run exConfig [Enqueue (newJob ''J1'' ''c'' ''12345'' 0)] init \<and>
   ''d'' \<notin> running oneRunning \<and>
   fst (enqueue (newJob ''J2'' ''d'' ''67890'' 1) oneRunning) = 1 \<and>
   queues oneRunning ''d'' = None \<and>
   queues (snd (enqueue (newJob ''J2'' ''d'' ''67890'' 1) oneRunning)) ''d'' = Some 1 \<and>
   queueOf (snd (enqueue (newJob ''J2'' ''d'' ''67890'' 1) oneRunning)) ''d'' = [1]"
  using enqueue_position [of "newJob ''J2'' ''d'' ''67890'' 1" oneRunning exConfig
      "[Enqueue (newJob ''J1'' ''c'' ''12345'' 0)]"]
  by (simp add: oneRunning_def queueOf_def evalSys evalProc newJob_def)

text \<open>
  C5 as first stated fails for a channel whose head job is running: after one enqueue
  into an empty manager the channel has one running job and no waiting job, and the
  next enqueue returns 2, not 1.
\<close>

theorem enqueue_position_counterexample:
  "getSummary oneRunning ''c'' =
     Some \<lparr> sm_running = True, sm_length = 1, sm_items = [(''J1'', ''12345'', StateRunning)] \<rparr> \<and>
   waitingCount oneRunning ''c'' = 0 \<and>
   fst (enqueue (newJob ''J2'' ''c'' ''67890'' 1) oneRunning) = 2"
  by (simp add: oneRunning_def waitingCount_def getSummary_def evalSys evalProc newJob_def)

section \<open>First in, first out, one job at a time\<close>

lemma settledJobs_append: "settledJobs (xs @ ys) = settledJobs xs @ settledJobs ys"
  by (induction xs rule: settledJobs.induct) simp_all

lemma settledJobs_Issued: "settledJobs (map (Issued j) acts) = []"
  by (induction acts) simp_all

lemma split_nth_map:
  "i < length xs \<Longrightarrow> map f xs = map f (take i xs) @ f (xs ! i) # map f (drop (Suc i) xs)"
  using arg_cong [where f = "map f", OF id_take_nth_drop [of i xs]] by simp

lemma split_nth_set:
  "i < length xs \<Longrightarrow> set xs = set (take i xs) \<union> {xs ! i} \<union> set (drop (Suc i) xs)"
  using arg_cong [where f = set, OF id_take_nth_drop [of i xs]] by simp

lemma remove_nth_distinct:
  assumes "distinct (map f xs)" and "i < length xs"
  shows "distinct (map f (take i xs @ drop (Suc i) xs))"
proof -
  from assms(1) split_nth_map [OF assms(2), of f]
  have "distinct (map f (take i xs) @ f (xs ! i) # map f (drop (Suc i) xs))" by simp
  then show ?thesis by (auto simp: distinct_append)
qed

lemma remove_nth_mem:
  assumes "distinct (map f xs)" and "i < length xs" and "x \<in> set (take i xs @ drop (Suc i) xs)"
  shows "x \<in> set xs \<and> f x \<noteq> f (xs ! i)"
proof -
  from assms(1) split_nth_map [OF assms(2), of f]
  have "distinct (map f (take i xs) @ f (xs ! i) # map f (drop (Suc i) xs))" by simp
  then have d: "f (xs ! i) \<notin> f ` set (take i xs)" "f (xs ! i) \<notin> f ` set (drop (Suc i) xs)"
    by (auto simp: distinct_append)
  from assms(3) have "x \<in> set xs" by (auto dest: in_set_takeD in_set_dropD)
  moreover have "f x \<noteq> f (xs ! i)"
  proof
    assume e: "f x = f (xs ! i)"
    from assms(3) have "x \<in> set (take i xs) \<or> x \<in> set (drop (Suc i) xs)" by simp
    then have "f x \<in> f ` set (take i xs) \<or> f x \<in> f ` set (drop (Suc i) xs)" by blast
    with d e show False by simp
  qed
  ultimately show ?thesis by simp
qed

lemma remove_nth_keeps:
  assumes "x \<in> set xs" and "i < length xs" and "x \<noteq> xs ! i"
  shows "x \<in> set (take i xs @ drop (Suc i) xs)"
  using assms split_nth_set [OF assms(2)] by auto

lemma update_distinct:
  assumes "distinct (map f xs)" and "i < length xs" and "f y = f (xs ! i)"
  shows "distinct (map f (xs[i := y]))"
proof -
  from assms(2,3) have "(map f xs)[i := f y] = map f xs"
    by (simp add: list_update_same_conv)
  with assms(1) show ?thesis by (simp add: map_update)
qed

lemma update_mem:
  assumes "distinct (map f xs)" and "i < length xs" and "x \<in> set (xs[i := y])"
  shows "x = y \<or> (x \<in> set xs \<and> f x \<noteq> f (xs ! i))"
proof -
  from assms(3) obtain k where k: "k < length xs" "x = xs[i := y] ! k"
    by (auto simp: in_set_conv_nth)
  show ?thesis
  proof (cases "k = i")
    case True
    with k assms(2) show ?thesis by simp
  next
    case False
    with k have x: "x = xs ! k" by simp
    from assms(1) have "distinct (map f xs)" .
    with False k(1) assms(2) have "map f xs ! k \<noteq> map f xs ! i"
      by (simp add: distinct_conv_nth)
    with k(1) assms(2) x show ?thesis by simp
  qed
qed

lemma update_keeps:
  assumes "x \<in> set xs" and "i < length xs" and "x \<noteq> xs ! i"
  shows "x \<in> set (xs[i := y])"
proof -
  from assms(1) obtain k where k: "k < length xs" "x = xs ! k" by (auto simp: in_set_conv_nth)
  with assms(3) have "k \<noteq> i" by auto
  with k have "xs[i := y] ! k = x" by simp
  moreover from k(1) have "xs[i := y] ! k \<in> set (xs[i := y])" by simp
  ultimately show ?thesis by simp
qed

lemma distinct_map_filter_le1:
  "distinct (map f xs) \<Longrightarrow> length (filter (\<lambda>x. f x = c) xs) \<le> 1"
proof (induction xs)
  case Nil
  show ?case by simp
next
  case (Cons x xs)
  show ?case
  proof (cases "f x = c")
    case True
    with Cons.prems have "c \<notin> f ` set xs" by simp
    then have "\<forall>y \<in> set xs. f y \<noteq> c" by blast
    then have "filter (\<lambda>x. f x = c) xs = []" by (simp add: filter_empty_conv)
    with True show ?thesis by simp
  next
    case False
    with Cons show ?thesis by simp
  qed
qed

lemma afterRecall_channelCid:
  "afterRecall job a = (job', pc', acts) \<Longrightarrow> channelCid job' = channelCid job"
  by (auto simp: afterRecall_def split: AfterRecall.splits)

lemma recallStatus_channelCid:
  "recallStatus job a = (job', pc', acts) \<Longrightarrow> channelCid job' = channelCid job"
  by (auto simp: recallStatus_def split: StatusMessageId.splits if_splits list.splits
       dest: afterRecall_channelCid)

lemma pollTop_channelCid:
  "pollTop cfg now job st tid = (job', pc', acts) \<Longrightarrow> channelCid job' = channelCid job"
  by (auto simp: pollTop_def updateStatus_def split: if_splits dest: recallStatus_channelCid)

lemma continue_channelCid:
  "continue cfg now job k = (job', pc', acts) \<Longrightarrow> channelCid job' = channelCid job"
  by (auto simp: continue_def deliver_def split: Cont.splits if_splits dest: pollTop_channelCid)

lemma processJob_step_channelCid:
  assumes "processJob_step cfg now r job pc = (job', pc', acts)"
  shows "channelCid job' = channelCid job"
proof (cases pc)
  case AwaitStart
  with assms show ?thesis by (cases r) (auto simp: processJob_step_def)
next
  case AwaitPost
  with assms show ?thesis
    by (cases r) (auto simp: processJob_step_def updateStatus_def dest: recallStatus_channelCid)
next
  case (AwaitDelete rest a)
  with assms show ?thesis
    by (cases r; cases rest) (auto simp: processJob_step_def dest: afterRecall_channelCid)
next
  case (AwaitStatus t k)
  with assms show ?thesis
    by (cases r) (auto simp: processJob_step_def dest: continue_channelCid)
next
  case (AwaitGet st tid)
  with assms show ?thesis
    by (cases r)
       (auto simp: processJob_step_def updateStatus_def Let_def split: if_splits
             dest: recallStatus_channelCid)
next
  case (AwaitSleep st tid)
  with assms show ?thesis by (cases r) (auto simp: processJob_step_def dest: pollTop_channelCid)
next
  case (AwaitDeliver task)
  with assms show ?thesis
    by (cases r) (auto simp: processJob_step_def dest: recallStatus_channelCid)
next
  case (AwaitDeliverFailed task)
  with assms show ?thesis
    by (cases r) (auto simp: processJob_step_def dest: recallStatus_channelCid)
next
  case AwaitCompleted
  with assms show ?thesis by (cases r) (auto simp: processJob_step_def)
next
  case Returned
  with assms show ?thesis by (auto simp: processJob_step_def)
next
  case (Threw e)
  with assms show ?thesis by (auto simp: processJob_step_def)
qed

lemma enqueuedIn_fields:
  assumes "jobs s' = (jobs s)(nextJob s := job)" and "nextJob s' = Suc (nextJob s)"
  shows "enqueuedIn s' c = enqueuedIn s c @ (if channelCid job = c then [nextJob s] else [])"
proof -
  have "filter (\<lambda>j. channelCid (((jobs s)(nextJob s := job)) j) = c) [0..<nextJob s] =
        filter (\<lambda>j. channelCid (jobs s j) = c) [0..<nextJob s]"
    by (rule filter_cong) auto
  then show ?thesis by (simp add: enqueuedIn_def assms)
qed

lemma settledIn_fields:
  assumes "jobs s' = (jobs s)(nextJob s := job)" and "settledJobs (trace s') = settledJobs (trace s)"
    and "\<And>j. j \<in> set (settledJobs (trace s)) \<Longrightarrow> j < nextJob s"
  shows "settledIn s' c = settledIn s c"
proof -
  have "filter (\<lambda>j. channelCid (((jobs s)(nextJob s := job)) j) = c) (settledJobs (trace s)) =
      filter (\<lambda>j. channelCid (jobs s j) = c) (settledJobs (trace s))"
    by (rule filter_cong) (auto dest: assms(3))
  then show ?thesis by (simp add: settledIn_def assms(1,2))
qed

lemma enqueuedIn_same:
  assumes "jobs s' = (jobs s)(j := job')" and "channelCid job' = channelCid (jobs s j)"
    and "nextJob s' = nextJob s"
  shows "enqueuedIn s' c = enqueuedIn s c"
proof -
  have "filter (\<lambda>k. channelCid (((jobs s)(j := job')) k) = c) [0..<nextJob s] =
        filter (\<lambda>k. channelCid (jobs s k) = c) [0..<nextJob s]"
    by (rule filter_cong) (auto simp: assms(2))
  then show ?thesis by (simp add: enqueuedIn_def assms)
qed

lemma settledIn_same:
  assumes "jobs s' = (jobs s)(j := job')" and "channelCid job' = channelCid (jobs s j)"
    and "settledJobs (trace s') = settledJobs (trace s) @ extra"
  shows "settledIn s' c = settledIn s c @ filter (\<lambda>k. channelCid (jobs s k) = c) extra"
proof -
  have "filter (\<lambda>k. channelCid (((jobs s)(j := job')) k) = c) xs =
        filter (\<lambda>k. channelCid (jobs s k) = c) xs" for xs
    by (rule filter_cong) (auto simp: assms(2))
  then show ?thesis by (simp add: settledIn_def assms(1,3))
qed

lemma enqueue_existing:
  assumes "queues s (channelCid job) = Some a" and "channelCid job \<in> running s"
  shows "jobs (snd (enqueue job s)) = (jobs s)(nextJob s := job)"
    and "nextJob (snd (enqueue job s)) = Suc (nextJob s)"
    and "arrays (snd (enqueue job s)) = (arrays s)(a := arrays s a @ [nextJob s])"
    and "queues (snd (enqueue job s)) = queues s"
    and "running (snd (enqueue job s)) = running s"
    and "loops (snd (enqueue job s)) = loops s"
    and "trace (snd (enqueue job s)) = trace s"
proof -
  have "(queues s)(channelCid job := Some a) = queues s" using assms(1) by auto
  with assms show "jobs (snd (enqueue job s)) = (jobs s)(nextJob s := job)"
    and "nextJob (snd (enqueue job s)) = Suc (nextJob s)"
    and "arrays (snd (enqueue job s)) = (arrays s)(a := arrays s a @ [nextJob s])"
    and "queues (snd (enqueue job s)) = queues s"
    and "running (snd (enqueue job s)) = running s"
    and "loops (snd (enqueue job s)) = loops s"
    and "trace (snd (enqueue job s)) = trace s"
    by (simp_all add: enqueue_def maybeStart_def Let_def)
qed

lemma enqueue_fresh:
  assumes "queues s (channelCid job) = None" and "channelCid job \<notin> running s"
  shows "jobs (snd (enqueue job s)) = (jobs s)(nextJob s := job)"
    and "nextJob (snd (enqueue job s)) = Suc (nextJob s)"
    and "arrays (snd (enqueue job s)) = (arrays s)(nextArray s := [nextJob s])"
    and "queues (snd (enqueue job s)) = (queues s)(channelCid job := Some (nextArray s))"
    and "running (snd (enqueue job s)) = insert (channelCid job) (running s)"
    and "loops (snd (enqueue job s)) =
           loops s @ [\<lparr>lcid = channelCid job, lq = nextArray s, ljob = nextJob s, lpc = AwaitStart\<rparr>]"
    and "settledJobs (trace (snd (enqueue job s))) = settledJobs (trace s)"
  using assms
  by (simp_all add: enqueue_def maybeStart_def Let_def whileLoop_start settledJobs_append)

lemma resume_pending:
  assumes "i < length (loops s)"
    and "processJob_step cfg now r (jobs s (ljob (loops s ! i))) (lpc (loops s ! i)) = (job', pc', acts)"
    and "\<not> settled pc'"
  shows "jobs (resume cfg i now r s) = (jobs s)(ljob (loops s ! i) := job')"
    and "nextJob (resume cfg i now r s) = nextJob s"
    and "arrays (resume cfg i now r s) = arrays s"
    and "queues (resume cfg i now r s) = queues s"
    and "running (resume cfg i now r s) = running s"
    and "loops (resume cfg i now r s) = (loops s)[i := (loops s ! i)\<lparr>lpc := pc'\<rparr>]"
    and "settledJobs (trace (resume cfg i now r s)) = settledJobs (trace s)"
  using assms
  by (simp_all add: resume_def Let_def settledJobs_append settledJobs_Issued)

lemma resume_next:
  assumes "i < length (loops s)"
    and "processJob_step cfg now r (jobs s (ljob (loops s ! i))) (lpc (loops s ! i)) = (job', pc', acts)"
    and "settled pc'" and "tl (arrays s (lq (loops s ! i))) \<noteq> []"
  shows "jobs (resume cfg i now r s) = (jobs s)(ljob (loops s ! i) := job')"
    and "nextJob (resume cfg i now r s) = nextJob s"
    and "arrays (resume cfg i now r s) =
           (arrays s)(lq (loops s ! i) := tl (arrays s (lq (loops s ! i))))"
    and "queues (resume cfg i now r s) = queues s"
    and "running (resume cfg i now r s) = running s"
    and "loops (resume cfg i now r s) =
           (loops s)[i := (loops s ! i)\<lparr>ljob := hd (tl (arrays s (lq (loops s ! i)))),
                                          lpc := AwaitStart\<rparr>]"
    and "settledJobs (trace (resume cfg i now r s)) = settledJobs (trace s) @ [ljob (loops s ! i)]"
  using assms
  by (simp_all add: resume_def Let_def whileLoop_start settledJobs_append settledJobs_Issued)

lemma resume_exit:
  assumes "i < length (loops s)"
    and "processJob_step cfg now r (jobs s (ljob (loops s ! i))) (lpc (loops s ! i)) = (job', pc', acts)"
    and "settled pc'" and "tl (arrays s (lq (loops s ! i))) = []"
  shows "jobs (resume cfg i now r s) = (jobs s)(ljob (loops s ! i) := job')"
    and "nextJob (resume cfg i now r s) = nextJob s"
    and "arrays (resume cfg i now r s) = (arrays s)(lq (loops s ! i) := [])"
    and "queues (resume cfg i now r s) = (queues s)(lcid (loops s ! i) := None)"
    and "running (resume cfg i now r s) = running s - {lcid (loops s ! i)}"
    and "loops (resume cfg i now r s) = take i (loops s) @ drop (Suc i) (loops s)"
    and "settledJobs (trace (resume cfg i now r s)) = settledJobs (trace s) @ [ljob (loops s ! i)]"
  using assms
  by (simp_all add: resume_def Let_def whileLoop_exit settledJobs_append settledJobs_Issued)

lemma fifoInvI:
  assumes "\<And>c. enqueuedIn s c = settledIn s c @ queueOf s c"
    and "\<And>j. j \<in> set (settledJobs (trace s)) \<Longrightarrow> j < nextJob s"
    and "\<And>l. l \<in> set (loops s) \<Longrightarrow>
           queues s (lcid l) = Some (lq l) \<and> ljob l = hd (arrays s (lq l))"
    and "distinct (map lcid (loops s))"
    and "\<And>c. c \<in> running s \<Longrightarrow> c \<in> lcid ` set (loops s)"
  shows "fifoInv s"
  using assms unfolding fifoInv_def by blast

lemma fifoInv_init: "fifoInv init"
  by (simp add: fifoInv_def init_def enqueuedIn_def settledIn_def queueOf_def)

lemma fifoInv_enqueue:
  assumes f: "fifoInv s" and q: "queueInv s"
  shows "fifoInv (snd (enqueue job s))"
proof -
  define c where "c = channelCid job"
  define n where "n = nextJob s"
  define s' where "s' = snd (enqueue job s)"
  from f have F1: "\<And>c. enqueuedIn s c = settledIn s c @ queueOf s c"
    and F5: "\<And>j. j \<in> set (settledJobs (trace s)) \<Longrightarrow> j < nextJob s"
    and F2: "\<And>l. l \<in> set (loops s) \<Longrightarrow> queues s (lcid l) = Some (lq l) \<and> ljob l = hd (arrays s (lq l))"
    and F3: "distinct (map lcid (loops s))"
    and F4: "\<And>c. c \<in> running s \<Longrightarrow> c \<in> lcid ` set (loops s)"
    unfolding fifoInv_def by blast+
  from q have Q1: "\<And>c a. queues s c = Some a \<Longrightarrow> arrays s a \<noteq> [] \<and> a < nextArray s \<and> c \<in> running s"
    and Q2: "\<And>c c' a. queues s c = Some a \<Longrightarrow> queues s c' = Some a \<Longrightarrow> c = c'"
    unfolding queueInv_def by blast+
  show "fifoInv (snd (enqueue job s))"
  proof (cases "queues s c")
    case (Some a)
    with Q1 have run: "c \<in> running s" and ne: "arrays s a \<noteq> []" by auto
    note fl = enqueue_existing [OF Some [unfolded c_def] run [unfolded c_def]]
    show ?thesis
    proof (rule fifoInvI)
      fix c'
      have e: "enqueuedIn (snd (enqueue job s)) c' =
          enqueuedIn s c' @ (if channelCid job = c' then [nextJob s] else [])"
        by (rule enqueuedIn_fields) (simp_all add: fl)
      have t: "settledIn (snd (enqueue job s)) c' = settledIn s c'"
        by (rule settledIn_fields) (simp_all add: fl F5)
      have qo: "queueOf (snd (enqueue job s)) c' =
          queueOf s c' @ (if channelCid job = c' then [nextJob s] else [])"
      proof (cases "c' = c")
        case True
        with Some show ?thesis by (simp add: queueOf_def fl c_def)
      next
        case False
        show ?thesis
        proof (cases "queues s c'")
          case None
          with False show ?thesis by (auto simp: queueOf_def fl c_def)
        next
          case (Some a')
          with False Q2 [of c' a c] \<open>queues s c = Some a\<close> have "a' \<noteq> a" by auto
          with Some False show ?thesis by (auto simp: queueOf_def fl c_def)
        qed
      qed
      from e t qo F1 [of c'] show "enqueuedIn (snd (enqueue job s)) c' =
          settledIn (snd (enqueue job s)) c' @ queueOf (snd (enqueue job s)) c'" by simp
    next
      fix j assume "j \<in> set (settledJobs (trace (snd (enqueue job s))))"
      then show "j < nextJob (snd (enqueue job s))" using F5 [of j] by (simp add: fl)
    next
      fix l assume "l \<in> set (loops (snd (enqueue job s)))"
      then have l: "l \<in> set (loops s)" by (simp add: fl)
      from F2 [OF l] ne
      show "queues (snd (enqueue job s)) (lcid l) = Some (lq l) \<and>
            ljob l = hd (arrays (snd (enqueue job s)) (lq l))"
        by (auto simp: fl)
    next
      show "distinct (map lcid (loops (snd (enqueue job s))))" using F3 by (simp add: fl)
    next
      fix c' assume "c' \<in> running (snd (enqueue job s))"
      then show "c' \<in> lcid ` set (loops (snd (enqueue job s)))" using F4 [of c'] by (simp add: fl)
    qed
  next
    case None
    have notrun: "c \<notin> running s"
    proof
      assume "c \<in> running s"
      from F4 [OF this] obtain l where "l \<in> set (loops s)" "lcid l = c" by auto
      with F2 [of l] None show False by simp
    qed
    note fl = enqueue_fresh [OF None [unfolded c_def] notrun [unfolded c_def]]
    have fresh: "queues s c' \<noteq> Some (nextArray s)" for c'
      using Q1 [of c' "nextArray s"] by auto
    show ?thesis
    proof (rule fifoInvI)
      fix c'
      have e: "enqueuedIn (snd (enqueue job s)) c' =
          enqueuedIn s c' @ (if channelCid job = c' then [nextJob s] else [])"
        by (rule enqueuedIn_fields) (simp_all add: fl)
      have t: "settledIn (snd (enqueue job s)) c' = settledIn s c'"
        by (rule settledIn_fields) (simp_all add: fl F5)
      have qo: "queueOf (snd (enqueue job s)) c' =
          queueOf s c' @ (if channelCid job = c' then [nextJob s] else [])"
      proof (cases "c' = c")
        case True
        with None show ?thesis by (simp add: queueOf_def fl c_def)
      next
        case False
        show ?thesis
        proof (cases "queues s c'")
          case None
          with False show ?thesis by (auto simp: queueOf_def fl c_def)
        next
          case (Some a')
          with fresh [of c'] have "a' \<noteq> nextArray s" by auto
          with Some False show ?thesis by (auto simp: queueOf_def fl c_def)
        qed
      qed
      from e t qo F1 [of c'] show "enqueuedIn (snd (enqueue job s)) c' =
          settledIn (snd (enqueue job s)) c' @ queueOf (snd (enqueue job s)) c'" by simp
    next
      fix j assume "j \<in> set (settledJobs (trace (snd (enqueue job s))))"
      then show "j < nextJob (snd (enqueue job s))" using F5 [of j] by (simp add: fl)
    next
      fix l assume "l \<in> set (loops (snd (enqueue job s)))"
      then consider "l \<in> set (loops s)"
        | "l = \<lparr>lcid = channelCid job, lq = nextArray s, ljob = nextJob s, lpc = AwaitStart\<rparr>"
        by (auto simp: fl)
      then show "queues (snd (enqueue job s)) (lcid l) = Some (lq l) \<and>
            ljob l = hd (arrays (snd (enqueue job s)) (lq l))"
      proof cases
        case 1
        from F2 [OF 1] have m: "queues s (lcid l) = Some (lq l)" "ljob l = hd (arrays s (lq l))"
          by simp_all
        from m(1) None have "lcid l \<noteq> channelCid job" by (auto simp: c_def)
        moreover from m(1) fresh [of "lcid l"] have "lq l \<noteq> nextArray s" by auto
        ultimately show ?thesis using m by (simp add: fl)
      next
        case 2
        then show ?thesis by (simp add: fl)
      qed
    next
      have "channelCid job \<notin> lcid ` set (loops s)"
      proof
        assume "channelCid job \<in> lcid ` set (loops s)"
        then obtain l where "l \<in> set (loops s)" "lcid l = c" by (auto simp: c_def)
        with F2 [of l] None show False by simp
      qed
      with F3 show "distinct (map lcid (loops (snd (enqueue job s))))" by (simp add: fl)
    next
      fix c' assume "c' \<in> running (snd (enqueue job s))"
      then show "c' \<in> lcid ` set (loops (snd (enqueue job s)))"
        using F4 [of c'] by (auto simp: fl)
    qed
  qed
qed

lemma fifoInv_resume:
  assumes f: "fifoInv s" and q: "queueInv s"
  shows "fifoInv (resume cfg i now r s)"
proof (cases "i < length (loops s)")
  case False
  with f show ?thesis by (simp add: resume_def)
next
  case True
  define l where "l = loops s ! i"
  define a where "a = lq l"
  define c0 where "c0 = lcid l"
  define j where "j = ljob l"
  obtain job' pc' acts where st:
    "processJob_step cfg now r (jobs s (ljob (loops s ! i))) (lpc (loops s ! i)) = (job', pc', acts)"
    by (cases "processJob_step cfg now r (jobs s (ljob (loops s ! i))) (lpc (loops s ! i))")
  from f have F1: "\<And>c. enqueuedIn s c = settledIn s c @ queueOf s c"
    and F5: "\<And>j. j \<in> set (settledJobs (trace s)) \<Longrightarrow> j < nextJob s"
    and F2: "\<And>l. l \<in> set (loops s) \<Longrightarrow> queues s (lcid l) = Some (lq l) \<and> ljob l = hd (arrays s (lq l))"
    and F3: "distinct (map lcid (loops s))"
    and F4: "\<And>c. c \<in> running s \<Longrightarrow> c \<in> lcid ` set (loops s)"
    unfolding fifoInv_def by blast+
  from q have Q1: "\<And>c a. queues s c = Some a \<Longrightarrow> arrays s a \<noteq> [] \<and> a < nextArray s \<and> c \<in> running s"
    and Q2: "\<And>c c' a. queues s c = Some a \<Longrightarrow> queues s c' = Some a \<Longrightarrow> c = c'"
    unfolding queueInv_def by blast+
  from True have lmem: "l \<in> set (loops s)" by (simp add: l_def)
  from F2 [OF lmem] have qa: "queues s c0 = Some a" and jhd: "j = hd (arrays s a)"
    by (simp_all add: a_def c0_def j_def)
  from Q1 [OF qa] have ne: "arrays s a \<noteq> []" by simp
  from F1 [of c0] qa have e0: "enqueuedIn s c0 = settledIn s c0 @ arrays s a"
    by (simp add: queueOf_def)
  from ne jhd have "j \<in> set (arrays s a)" by simp
  with e0 have jin: "j \<in> set (enqueuedIn s c0)" by simp
  then have jc: "channelCid (jobs s j) = c0" and jlt: "j < nextJob s"
    by (simp_all add: enqueuedIn_def)
  from st have cc: "channelCid job' = channelCid (jobs s j)"
    by (simp add: processJob_step_channelCid j_def l_def)
  have other: "lq l' \<noteq> a" if "l' \<in> set (loops s)" "lcid l' \<noteq> c0" for l'
    using F2 [OF that(1)] Q2 [of "lcid l'" a c0] qa that(2) by auto
  show ?thesis
  proof (cases "settled pc'")
    case False
    note fl = resume_pending [OF True st False, folded l_def, folded j_def]
    show ?thesis
    proof (rule fifoInvI)
      fix c
      have "enqueuedIn (resume cfg i now r s) c = enqueuedIn s c"
        by (rule enqueuedIn_same [where j = j and job' = job']) (simp_all add: fl cc)
      moreover have "settledIn (resume cfg i now r s) c = settledIn s c @ filter (\<lambda>k. channelCid (jobs s k) = c) []"
        by (rule settledIn_same [where j = j and job' = job']) (simp_all add: fl cc)
      moreover have "queueOf (resume cfg i now r s) c = queueOf s c"
        by (simp add: queueOf_def fl split: option.splits)
      ultimately show "enqueuedIn (resume cfg i now r s) c =
          settledIn (resume cfg i now r s) c @ queueOf (resume cfg i now r s) c"
        using F1 [of c] by simp
    next
      fix k assume "k \<in> set (settledJobs (trace (resume cfg i now r s)))"
      then show "k < nextJob (resume cfg i now r s)" using F5 [of k] by (simp add: fl)
    next
      fix l' assume "l' \<in> set (loops (resume cfg i now r s))"
      then have "l' \<in> set ((loops s)[i := l\<lparr>lpc := pc'\<rparr>])" by (simp add: fl)
      from update_mem [OF F3 True this]
      have "l' = l\<lparr>lpc := pc'\<rparr> \<or> l' \<in> set (loops s)" by auto
      then show "queues (resume cfg i now r s) (lcid l') = Some (lq l') \<and>
          ljob l' = hd (arrays (resume cfg i now r s) (lq l'))"
        using F2 [of l'] F2 [OF lmem] by (auto simp: fl)
    next
      show "distinct (map lcid (loops (resume cfg i now r s)))"
        using update_distinct [OF F3 True, of "l\<lparr>lpc := pc'\<rparr>"] by (simp add: fl l_def)
    next
      fix c assume "c \<in> running (resume cfg i now r s)"
      then have "c \<in> running s" by (simp add: fl)
      from F4 [OF this] obtain l' where l': "l' \<in> set (loops s)" "lcid l' = c" by auto
      show "c \<in> lcid ` set (loops (resume cfg i now r s))"
      proof (cases "l' = l")
        case True
        have "l\<lparr>lpc := pc'\<rparr> \<in> set ((loops s)[i := l\<lparr>lpc := pc'\<rparr>])"
          using \<open>i < length (loops s)\<close> by (rule set_update_memI)
        then have "lcid (l\<lparr>lpc := pc'\<rparr>) \<in> lcid ` set ((loops s)[i := l\<lparr>lpc := pc'\<rparr>])"
          by (rule imageI)
        with True l'(2) show ?thesis by (simp add: fl)
      next
        case False
        with l'(1) \<open>i < length (loops s)\<close> have "l' \<in> set ((loops s)[i := l\<lparr>lpc := pc'\<rparr>])"
          by (intro update_keeps) (simp_all add: l_def)
        then have "lcid l' \<in> lcid ` set ((loops s)[i := l\<lparr>lpc := pc'\<rparr>])" by (rule imageI)
        with l'(2) show ?thesis by (simp add: fl)
      qed
    qed
  next
    case sett: True
    have split_q: "arrays s a = j # tl (arrays s a)" using ne jhd by simp
    have f1: "enqueuedIn s' c = settledIn s' c @ queueOf s' c"
      if jobs': "jobs s' = (jobs s)(j := job')" and nj: "nextJob s' = nextJob s"
        and tr: "settledJobs (trace s') = settledJobs (trace s) @ [j]"
        and qo: "queueOf s' c = (if c = c0 then tl (arrays s a) else queueOf s c)"
      for s' c
    proof -
      have "enqueuedIn s' c = enqueuedIn s c"
        by (rule enqueuedIn_same [where j = j and job' = job']) (simp_all add: jobs' nj cc)
      moreover have "settledIn s' c = settledIn s c @ filter (\<lambda>k. channelCid (jobs s k) = c) [j]"
        by (rule settledIn_same [where j = j and job' = job']) (simp_all add: jobs' tr cc)
      ultimately show ?thesis
        using F1 [of c] e0 split_q jc qo by (cases "c = c0") auto
    qed
    have f5: "k < nextJob s'"
      if "nextJob s' = nextJob s" "settledJobs (trace s') = settledJobs (trace s) @ [j]"
        "k \<in> set (settledJobs (trace s'))" for s' k
      using that F5 [of k] jlt by auto
    show ?thesis
    proof (cases "tl (arrays s a) = []")
      case False
      note fl = resume_next [OF True st sett False [unfolded a_def l_def],
          folded l_def, folded j_def a_def]
      define lnew where "lnew = l\<lparr>ljob := hd (tl (arrays s a)), lpc := AwaitStart\<rparr>"
      show ?thesis
      proof (rule fifoInvI)
        fix c
        have "queueOf (resume cfg i now r s) c = (if c = c0 then tl (arrays s a) else queueOf s c)"
        proof (cases "c = c0")
          case True
          with qa show ?thesis by (simp add: queueOf_def fl)
        next
          case False
          with Q2 [of c a c0] qa show ?thesis
            by (auto simp: queueOf_def fl split: option.splits)
        qed
        then show "enqueuedIn (resume cfg i now r s) c =
            settledIn (resume cfg i now r s) c @ queueOf (resume cfg i now r s) c"
          by (intro f1) (simp_all add: fl)
      next
        fix k assume "k \<in> set (settledJobs (trace (resume cfg i now r s)))"
        then show "k < nextJob (resume cfg i now r s)"
          by (intro f5 [of "resume cfg i now r s"]) (simp_all add: fl)
      next
        fix l' assume "l' \<in> set (loops (resume cfg i now r s))"
        then have "l' \<in> set ((loops s)[i := lnew])" by (simp add: fl lnew_def)
        from update_mem [OF F3 True this]
        consider "l' = lnew" | "l' \<in> set (loops s)" "lcid l' \<noteq> c0" by (auto simp: l_def c0_def)
        then show "queues (resume cfg i now r s) (lcid l') = Some (lq l') \<and>
            ljob l' = hd (arrays (resume cfg i now r s) (lq l'))"
        proof cases
          case 1
          with qa show ?thesis by (simp add: fl lnew_def a_def c0_def)
        next
          case 2
          from other [OF 2] F2 [OF 2(1)] show ?thesis by (simp add: fl)
        qed
      next
        show "distinct (map lcid (loops (resume cfg i now r s)))"
          using update_distinct [OF F3 True, of lnew] by (simp add: fl l_def lnew_def)
      next
        fix c assume "c \<in> running (resume cfg i now r s)"
        then have "c \<in> running s" by (simp add: fl)
        from F4 [OF this] obtain l' where l': "l' \<in> set (loops s)" "lcid l' = c" by auto
        show "c \<in> lcid ` set (loops (resume cfg i now r s))"
        proof (cases "l' = l")
          case True
          have "lnew \<in> set ((loops s)[i := lnew])"
            using \<open>i < length (loops s)\<close> by (rule set_update_memI)
          then have "lcid lnew \<in> lcid ` set ((loops s)[i := lnew])" by (rule imageI)
          with True l'(2) show ?thesis by (simp add: fl lnew_def)
        next
          case False
          with l'(1) \<open>i < length (loops s)\<close> have "l' \<in> set ((loops s)[i := lnew])"
            by (intro update_keeps) (simp_all add: l_def)
          then have "lcid l' \<in> lcid ` set ((loops s)[i := lnew])" by (rule imageI)
          with l'(2) show ?thesis by (simp add: fl lnew_def)
        qed
      qed
    next
      case empty: True
      note fl = resume_exit [OF True st sett empty [unfolded a_def l_def],
          folded l_def, folded j_def a_def c0_def]
      show ?thesis
      proof (rule fifoInvI)
        fix c
        have "queueOf (resume cfg i now r s) c = (if c = c0 then tl (arrays s a) else queueOf s c)"
        proof (cases "c = c0")
          case True
          with empty show ?thesis by (simp add: queueOf_def fl)
        next
          case False
          with Q2 [of c a c0] qa show ?thesis
            by (auto simp: queueOf_def fl split: option.splits)
        qed
        then show "enqueuedIn (resume cfg i now r s) c =
            settledIn (resume cfg i now r s) c @ queueOf (resume cfg i now r s) c"
          by (intro f1) (simp_all add: fl)
      next
        fix k assume "k \<in> set (settledJobs (trace (resume cfg i now r s)))"
        then show "k < nextJob (resume cfg i now r s)"
          by (intro f5 [of "resume cfg i now r s"]) (simp_all add: fl)
      next
        fix l' assume "l' \<in> set (loops (resume cfg i now r s))"
        then have "l' \<in> set (take i (loops s) @ drop (Suc i) (loops s))" by (simp add: fl)
        from remove_nth_mem [OF F3 True this]
        have 2: "l' \<in> set (loops s)" "lcid l' \<noteq> c0" by (simp_all add: l_def c0_def)
        from other [OF 2] F2 [OF 2(1)] 2(2)
        show "queues (resume cfg i now r s) (lcid l') = Some (lq l') \<and>
            ljob l' = hd (arrays (resume cfg i now r s) (lq l'))"
          by (simp add: fl)
      next
        show "distinct (map lcid (loops (resume cfg i now r s)))"
          using remove_nth_distinct [OF F3 True] by (simp add: fl)
      next
        fix c assume "c \<in> running (resume cfg i now r s)"
        then have c: "c \<in> running s" "c \<noteq> c0" by (simp_all add: fl)
        from F4 [OF c(1)] obtain l' where l': "l' \<in> set (loops s)" "lcid l' = c" by auto
        with c(2) have "l' \<noteq> loops s ! i" by (auto simp: c0_def l_def)
        with l'(1) \<open>i < length (loops s)\<close> have "l' \<in> set (take i (loops s) @ drop (Suc i) (loops s))"
          by (intro remove_nth_keeps)
        then have "lcid l' \<in> lcid ` set (take i (loops s) @ drop (Suc i) (loops s))"
          by (rule imageI)
        with l'(2) show "c \<in> lcid ` set (loops (resume cfg i now r s))" by (simp add: fl)
      qed
    qed
  qed
qed

lemma invs_run:
  "fifoInv s \<Longrightarrow> queueInv s \<Longrightarrow> enqueuesOnly es \<Longrightarrow>
   fifoInv (run cfg es s) \<and> queueInv (run cfg es s)"
proof (induction es arbitrary: s)
  case Nil
  then show ?case by simp
next
  case (Cons e es)
  from Cons.prems(3) have rest: "enqueuesOnly es" by (simp add: enqueuesOnly_def)
  have "fifoInv (step cfg e s)"
  proof (cases e)
    case (Enqueue job)
    with Cons.prems show ?thesis by (simp add: fifoInv_enqueue)
  next
    case (Cancel cid jid)
    with Cons.prems(3) show ?thesis by (simp add: enqueuesOnly_def)
  next
    case (Clear cid)
    with Cons.prems(3) show ?thesis by (simp add: enqueuesOnly_def)
  next
    case (Resume i now r)
    with Cons.prems show ?thesis by (simp add: fifoInv_resume)
  qed
  moreover from Cons.prems(2) have "queueInv (step cfg e s)" by (rule queueInv_step)
  ultimately show ?case using Cons.IH rest by simp
qed

text \<open>
  C1. In every state reached by enqueues and run-loop resumptions only (no cancel, no
  clear): for each channel, the jobs enqueued into it, in enqueue order, are the jobs whose
  \<open>processJob\<close> has settled, in settling order, followed by the jobs still in its queue, so
  jobs reach a terminal state in exactly the order they were enqueued; at most one run
  loop, hence at most one running job, exists per channel, and the job it executes is the
  head of the channel's queue; and an enqueue into a channel that has a run loop starts no
  further loop and only appends the job to the channel's queue.
\<close>

theorem fifo_single_flight:
  "s = run cfg es init \<and> enqueuesOnly es \<longrightarrow>
     enqueuedIn s c = settledIn s c @ queueOf s c \<and>
     length (filter (\<lambda>l. lcid l = c) (loops s)) \<le> 1 \<and>
     (\<forall>l \<in> set (loops s). lcid l = c \<longrightarrow> queueOf s c \<noteq> [] \<and> ljob l = hd (queueOf s c)) \<and>
     (channelCid job \<in> lcid ` set (loops s) \<longrightarrow>
        loops (snd (enqueue job s)) = loops s \<and>
        queueOf (snd (enqueue job s)) (channelCid job) = queueOf s (channelCid job) @ [nextJob s])"
proof
  assume h: "s = run cfg es init \<and> enqueuesOnly es"
  with invs_run [OF fifoInv_init queueInv_init, of es cfg]
  have f: "fifoInv s" and q: "queueInv s" by simp_all
  from f have F1: "\<And>c. enqueuedIn s c = settledIn s c @ queueOf s c"
    and F2: "\<And>l. l \<in> set (loops s) \<Longrightarrow> queues s (lcid l) = Some (lq l) \<and> ljob l = hd (arrays s (lq l))"
    and F3: "distinct (map lcid (loops s))"
    unfolding fifoInv_def by blast+
  from q have Q1: "\<And>c a. queues s c = Some a \<Longrightarrow> arrays s a \<noteq> [] \<and> a < nextArray s \<and> c \<in> running s"
    unfolding queueInv_def by blast
  have head: "\<forall>l \<in> set (loops s). lcid l = c \<longrightarrow> queueOf s c \<noteq> [] \<and> ljob l = hd (queueOf s c)"
  proof (intro ballI impI)
    fix l assume "l \<in> set (loops s)" "lcid l = c"
    with F2 [of l] Q1 [of c "lq l"] show "queueOf s c \<noteq> [] \<and> ljob l = hd (queueOf s c)"
      by (simp add: queueOf_def)
  qed
  have enq: "loops (snd (enqueue job s)) = loops s \<and>
        queueOf (snd (enqueue job s)) (channelCid job) = queueOf s (channelCid job) @ [nextJob s]"
    if "channelCid job \<in> lcid ` set (loops s)"
  proof -
    from that obtain l where "l \<in> set (loops s)" "lcid l = channelCid job" by auto
    with F2 [of l] have qa: "queues s (channelCid job) = Some (lq l)" by simp
    from Q1 [OF qa] have run: "channelCid job \<in> running s" by simp
    from enqueue_existing [OF qa run] qa show ?thesis by (simp add: queueOf_def)
  qed
  from F1 [of c] distinct_map_filter_le1 [OF F3, of c] head enq
  show "enqueuedIn s c = settledIn s c @ queueOf s c \<and>
     length (filter (\<lambda>l. lcid l = c) (loops s)) \<le> 1 \<and>
     (\<forall>l \<in> set (loops s). lcid l = c \<longrightarrow> queueOf s c \<noteq> [] \<and> ljob l = hd (queueOf s c)) \<and>
     (channelCid job \<in> lcid ` set (loops s) \<longrightarrow>
        loops (snd (enqueue job s)) = loops s \<and>
        queueOf (snd (enqueue job s)) (channelCid job) = queueOf s (channelCid job) @ [nextJob s])"
    by blast
qed

theorem fifo_single_flight_witness:
  "enqueuesOnly firstSettled \<and>
   enqueuedIn (run exConfig firstSettled init) ''c'' = [0, 1] \<and>
   settledIn (run exConfig firstSettled init) ''c'' = [0] \<and>
   queueOf (run exConfig firstSettled init) ''c'' = [1] \<and>
   loops (run exConfig firstSettled init) = [\<lparr>lcid = ''c'', lq = 0, ljob = 1, lpc = AwaitStart\<rparr>] \<and>
   loops (snd (enqueue (newJob ''J3'' ''c'' ''1'' 9) (run exConfig firstSettled init))) =
     [\<lparr>lcid = ''c'', lq = 0, ljob = 1, lpc = AwaitStart\<rparr>] \<and>
   queueOf (snd (enqueue (newJob ''J3'' ''c'' ''1'' 9) (run exConfig firstSettled init))) ''c'' = [1, 2]"
  using fifo_single_flight [of "run exConfig firstSettled init" exConfig firstSettled "''c''"
      "newJob ''J3'' ''c'' ''1'' 9"]
  by (simp add: enqueuesOnly_def enqueuedIn_def settledIn_def queueOf_def evalSys evalProc evalEx
        firstSettled_def)

section \<open>cancel and clear while the run loop is suspended\<close>

text \<open>
  C2 (the code departs from the specification). Two jobs are enqueued into one channel; while the
  first is polling it is cancelled, which removes it from the queue at once. When its
  \<open>processJob\<close> then observes the cancellation and returns, the run loop's \<open>q.shift()\<close>
  removes the head of the queue, which is now the second job: that job leaves the queue
  although it was never executed (no call was ever issued for it) and never cancelled.
\<close>

theorem cancel_running_drops_waiting_job:
  "queueOf (run exConfig (butlast cancelRunning) init) ''c'' = [1] \<and>
   queues (run exConfig cancelRunning init) ''c'' = None \<and>
   loops (run exConfig cancelRunning init) = [] \<and>
   \<not> aborted (jobs (run exConfig cancelRunning init) 1) \<and>
   trace (run exConfig cancelRunning init) =
     [Issued 0 (ASend (CStatus (StStarting ''12345''))),
      Issued 0 (APost ''http://127.0.0.1:7210/tasks''
                  \<lparr> album_id = ''12345'', submit_password = None, submit_encrypt = Some True,
                    output_format = Some Zip, quality = None \<rparr> 30000),
      Issued 0 (ADeleteMessage ''c'' ''m1''),
      Issued 0 (ASend (CStatus (StCreated ''T1'' (Some 3)))),
      Issued 0 (AGet ''http://127.0.0.1:7210/tasks/T1'' 30000),
      Issued 0 (ASleep 500),
      Issued 0 (ADeleteMessage ''c'' ''m2''),
      Issued 0 (ASend (CStatus StCancelled)),
      Settled 0 Returned]"
  by (simp add: queueOf_def evalSys evalProc evalEx)

text \<open>
  C3 (the code departs from the specification). \<open>clear\<close> on a channel with a running and a waiting
  job returns 2, signals both tokens and removes the channel from the map and from the
  running set, so \<open>getSummary\<close> has no entry for it. But the run loop keeps its reference to
  the array, which still holds both jobs: when the first job has observed its cancellation
  and returned, the loop goes on to a further iteration and executes the second job, whose
  start notice and backend submission are issued.
\<close>

theorem clear_does_not_stop_run_loop:
  "fst (clear ''c'' (run exConfig twoEnqueued init)) = 2 \<and>
   getSummary (snd (clear ''c'' (run exConfig twoEnqueued init))) ''c'' = None \<and>
   aborted (jobs (snd (clear ''c'' (run exConfig twoEnqueued init))) 0) \<and>
   aborted (jobs (snd (clear ''c'' (run exConfig twoEnqueued init))) 1) \<and>
   ''c'' \<notin> running (snd (clear ''c'' (run exConfig twoEnqueued init))) \<and>
   arrays (snd (clear ''c'' (run exConfig twoEnqueued init))) 0 = [0, 1] \<and>
   trace (run exConfig clearWhileRunning init) =
     [Issued 0 (ASend (CStatus (StStarting ''12345''))),
      Issued 0 (APost ''http://127.0.0.1:7210/tasks''
                  \<lparr> album_id = ''12345'', submit_password = None, submit_encrypt = Some True,
                    output_format = Some Zip, quality = None \<rparr> 30000),
      Issued 0 (ADeleteMessage ''c'' ''m1''),
      Issued 0 (ASend (CStatus (StCreated ''T1'' (Some 3)))),
      Issued 0 (AGet ''http://127.0.0.1:7210/tasks/T1'' 30000),
      Issued 0 (ASleep 500),
      Issued 0 (ADeleteMessage ''c'' ''m2''),
      Issued 0 (ASend (CStatus StCancelled)),
      Settled 0 Returned,
      Issued 1 (ASend (CStatus (StStarting ''67890''))),
      Issued 1 (APost ''http://127.0.0.1:7210/tasks''
                  \<lparr> album_id = ''67890'', submit_password = None, submit_encrypt = Some True,
                    output_format = Some Zip, quality = None \<rparr> 30000)]"
  by (simp add: getSummary_def evalSys evalProc evalEx)

end
